theory Spec2Isabelle
  imports Complex_Main "HOL-Library.Finite_Map" "HOL-Library.Word" "HOL-Library.Signed_Division"
begin

section \<open>Data model of the transaction memory pool (txmempool.cpp)\<close>

text \<open>
  Hashes (\<open>uint256\<close>) are natural numbers. A transaction carries its cached hash, its
  inputs and its outputs; \<open>operator==\<close> on transactions compares the hashes.
  Amounts (\<open>CAmount\<close>, a 64-bit signed integer) are unbounded integers: no claim treated
  here depends on the overflow of an amount, except the product in \<open>AreSane\<close>, which is
  taken modulo \<open>2 ^ 64\<close>. A \<open>double\<close> that the program computes is a real number: the
  model computes exactly and has no infinities and no NaN there. A \<open>double\<close> that is read
  from a file is any value of the format, see \<open>double\<close> below.
\<close>

type_synonym uint256 = nat
type_synonym CAmount = int

datatype COutPoint = COutPoint (outpoint_hash: uint256) (outpoint_n: nat)

datatype CTxIn = CTxIn (prevout: COutPoint)

datatype CTxOut = CTxOut (nValue: CAmount)

record CTransaction =
  hash :: uint256
  vin :: "CTxIn list"
  vout :: "CTxOut list"

text \<open>
  \<open>CInPoint(ptx, n)\<close>: \<open>ptx\<close> points at the transaction stored inside a node of
  \<open>mapTx\<close>. A node of a \<open>std::map\<close> never moves, so the address is modelled by the
  key of that node; dereferencing \<open>ptx\<close> is a lookup of the key in \<open>mapTx\<close>, and it has
  no defined result once the node is erased.
\<close>

datatype CInPoint = CInPoint (ptx: uint256) (inpoint_n: nat)

datatype CFeeRate = CFeeRate (GetFeePerK: CAmount)

record CTxMemPoolEntry =
  tx :: CTransaction
  nFee :: CAmount
  nTxSize :: nat
  nModSize :: nat
  nTime :: int
  dPriority :: real
  nHeight :: "32 word"
  hadNoDependencies :: bool

subsection \<open>CBlockAverage\<close>

text \<open>
  A \<open>boost::circular_buffer\<close> of capacity 100 is the list of its elements, oldest
  first. \<open>push_back\<close> on a full buffer overwrites the oldest element, and an
  \<open>insert\<close> of a range at \<open>end()\<close> keeps the newest elements that fit.
\<close>

definition ring_capacity :: nat where
  "ring_capacity = 100"

definition cb_insert_end :: "'a list \<Rightarrow> 'a list \<Rightarrow> 'a list" where
  "cb_insert_end buf vec = drop (length (buf @ vec) - ring_capacity) (buf @ vec)"

definition cb_push_back :: "'a list \<Rightarrow> 'a \<Rightarrow> 'a list" where
  "cb_push_back buf x = cb_insert_end buf [x]"

text \<open>
  The priority samples are written to a file and read back from its bytes, so a sample is
  any \<open>double\<close>: a finite number, an infinity or a NaN. \<open>double_ge\<close> is \<open>>=\<close> of
  IEEE 754, false whenever an operand is a NaN.
\<close>

datatype double = Finite real | PosInf | NegInf | NaN

fun double_ge :: "double \<Rightarrow> double \<Rightarrow> bool" where
  "double_ge NaN y = False"
| "double_ge x NaN = False"
| "double_ge PosInf y = True"
| "double_ge x NegInf = True"
| "double_ge (Finite a) (Finite b) = (a \<ge> b)"
| "double_ge x y = False"

text \<open>
  \<open>minRelayFee.GetFeePerK() * 10000\<close> multiplies two \<open>int64_t\<close>. The model takes the
  product modulo \<open>2 ^ 64\<close>, read as a signed number, which is the result of the machine's
  multiplication where the product does not fit.
\<close>

definition int64_mul :: "CAmount \<Rightarrow> CAmount \<Rightarrow> CAmount" where
  "int64_mul a b = sint ((word_of_int a :: 64 word) * word_of_int b)"

record CBlockAverage =
  feeSamples :: "CFeeRate list"
  prioritySamples :: "double list"

definition CBlockAverage_init :: CBlockAverage where
  "CBlockAverage_init = \<lparr>feeSamples = [], prioritySamples = []\<rparr>"

definition RecordFee :: "CBlockAverage \<Rightarrow> CFeeRate \<Rightarrow> CBlockAverage" where
  "RecordFee b feeRate = b\<lparr>feeSamples := cb_push_back (feeSamples b) feeRate\<rparr>"

definition RecordPriority :: "CBlockAverage \<Rightarrow> double \<Rightarrow> CBlockAverage" where
  "RecordPriority b priority = b\<lparr>prioritySamples := cb_push_back (prioritySamples b) priority\<rparr>"

definition AreSane_fee :: "CFeeRate \<Rightarrow> CFeeRate \<Rightarrow> bool" where
  "AreSane_fee fee minRelay =
     (if GetFeePerK fee < GetFeePerK (CFeeRate 0) then False
      else if GetFeePerK fee > int64_mul (GetFeePerK minRelay) 10000 then False
      else True)"

fun AreSane_fees :: "CFeeRate list \<Rightarrow> CFeeRate \<Rightarrow> bool" where
  "AreSane_fees [] minRelay = True"
| "AreSane_fees (fee # vecFee) minRelay =
     (if \<not> AreSane_fee fee minRelay then False else AreSane_fees vecFee minRelay)"

definition AreSane_priority :: "double \<Rightarrow> bool" where
  "AreSane_priority priority = double_ge priority (Finite 0)"

fun AreSane_priorities :: "double list \<Rightarrow> bool" where
  "AreSane_priorities [] = True"
| "AreSane_priorities (priority # vecPriority) =
     (if \<not> AreSane_priority priority then False else AreSane_priorities vecPriority)"

text \<open>
  Modelled from the spec: the byte stream (\<open>CAutoFile\<close>, streams.h and serialize.h are
  not among the sources). The serialization framework is a black box that gives back what
  was written: a stream is the list of the values still to be read, each with the type it
  was written as. Reading from an exhausted stream, or a value of another type, raises the
  stream's \<open>std::ios_base::failure\<close>.
\<close>

datatype stream_item =
  ItemInt int
  | ItemFeeVec "CFeeRate list"
  | ItemDoubleVec "double list"

type_synonym CAutoFile = "stream_item list"

datatype read_error = StreamFailure | CorruptFee | CorruptPriority

definition buf2vec :: "'a list \<Rightarrow> 'a list" where
  "buf2vec buf = buf"

definition Write :: "CBlockAverage \<Rightarrow> CAutoFile \<Rightarrow> CAutoFile" where
  "Write b fileout =
     (let vecFee = buf2vec (feeSamples b);
          fileout1 = fileout @ [ItemFeeVec vecFee];
          vecPriority = buf2vec (prioritySamples b)
      in fileout1 @ [ItemDoubleVec vecPriority])"

text \<open>
  \<open>Read\<close> throws \<open>runtime_error\<close> on an insane vector. The result is the exception
  (\<open>Inl\<close>) or the ring with the rest of the stream; the state a throwing call leaves behind
  in the object is not kept.
\<close>

definition Read :: "CBlockAverage \<Rightarrow> CAutoFile \<Rightarrow> CFeeRate \<Rightarrow> read_error + (CBlockAverage \<times> CAutoFile)" where
  "Read b filein minRelay =
     (case filein of
        ItemFeeVec vecFee # filein1 \<Rightarrow>
          if AreSane_fees vecFee minRelay then
            (let b1 = b\<lparr>feeSamples := cb_insert_end (feeSamples b) vecFee\<rparr> in
             case filein1 of
               ItemDoubleVec vecPriority # filein2 \<Rightarrow>
                 if AreSane_priorities vecPriority then
                   Inr (b1\<lparr>prioritySamples := cb_insert_end (prioritySamples b1) vecPriority\<rparr>, filein2)
                 else Inl CorruptPriority
             | _ \<Rightarrow> Inl StreamFailure)
          else Inl CorruptFee
      | _ \<Rightarrow> Inl StreamFailure)"

subsection \<open>The pool\<close>

text \<open>
  Modelled from the spec: \<open>CBlockPolicyEstimator\<close> (policy/fees.cpp is not among the
  sources). The pool only calls it; the model keeps the calls made, in order, and the
  bucketed sample rings that \<open>Write\<close> and \<open>Read\<close> persist.
\<close>

datatype estimator_call =
  ProcessTransaction CTxMemPoolEntry bool
  | RemoveTx uint256
  | ProcessBlock "32 word" "CTxMemPoolEntry list" bool

record CBlockPolicyEstimator =
  calls :: "estimator_call list"
  history :: "CBlockAverage list"

record CTxMemPool =
  nTransactionsUpdated :: "32 word"
  minRelayFee :: CFeeRate
  totalTxSize :: "64 word"
  mapTx :: "(uint256, CTxMemPoolEntry) fmap"
  mapNextTx :: "(COutPoint, CInPoint) fmap"
  mapDeltas :: "(uint256, real \<times> CAmount) fmap"
  rollingMinimumFeeRate :: real
  lastRollingFeeUpdate :: int
  minerPolicyEstimator :: CBlockPolicyEstimator

definition CTxMemPool_init :: "CFeeRate \<Rightarrow> CTxMemPool" where
  "CTxMemPool_init relayFee =
     \<lparr>nTransactionsUpdated = 0, minRelayFee = relayFee, totalTxSize = 0,
      mapTx = fmempty, mapNextTx = fmempty, mapDeltas = fmempty,
      rollingMinimumFeeRate = 0, lastRollingFeeUpdate = 0,
      minerPolicyEstimator = \<lparr>calls = [], history = []\<rparr>\<rparr>"

definition est_call :: "estimator_call \<Rightarrow> CTxMemPool \<Rightarrow> CTxMemPool" where
  "est_call c p =
     p\<lparr>minerPolicyEstimator :=
         (minerPolicyEstimator p)\<lparr>calls := calls (minerPolicyEstimator p) @ [c]\<rparr>\<rparr>"

subsection \<open>CTxMemPoolEntry::GetPriority\<close>



subsection \<open>addUnchecked, remove, removeConflicts, removeForBlock, clear\<close>

fun index_inputs :: "uint256 \<Rightarrow> CTxIn list \<Rightarrow> nat \<Rightarrow> (COutPoint, CInPoint) fmap \<Rightarrow> (COutPoint, CInPoint) fmap" where
  "index_inputs h [] i m = m"
| "index_inputs h (txin # rest) i m = index_inputs h rest (Suc i) (fmupd (prevout txin) (CInPoint h i) m)"

definition addUnchecked :: "CTxMemPool \<Rightarrow> uint256 \<Rightarrow> CTxMemPoolEntry \<Rightarrow> bool \<Rightarrow> bool \<times> CTxMemPool" where
  "addUnchecked p h entry fCurrentEstimate =
     (let p1 = p\<lparr>mapTx := fmupd h entry (mapTx p)\<rparr>;
          p2 = p1\<lparr>mapNextTx := index_inputs h (vin (tx entry)) 0 (mapNextTx p1)\<rparr>;
          p3 = p2\<lparr>nTransactionsUpdated := nTransactionsUpdated p2 + 1\<rparr>;
          p4 = p3\<lparr>totalTxSize := totalTxSize p3 + of_nat (nTxSize entry)\<rparr>
      in (True, est_call (ProcessTransaction entry fCurrentEstimate) p4))"

definition exists_tx :: "CTxMemPool \<Rightarrow> uint256 \<Rightarrow> bool" where
  "exists_tx p h = (fmlookup (mapTx p) h \<noteq> None)"

definition lookup :: "CTxMemPool \<Rightarrow> uint256 \<Rightarrow> CTransaction option" where
  "lookup p h = (case fmlookup (mapTx p) h of None \<Rightarrow> None | Some e \<Rightarrow> Some (tx e))"

text \<open>
  The loops of \<open>remove\<close> that push \<open>it->second.ptx->GetHash()\<close> for every output index
  \<open>i\<close> with an entry in \<open>mapNextTx\<close>. The result is \<open>None\<close> when \<open>ptx\<close> dangles.
\<close>

fun push_spenders :: "CTxMemPool \<Rightarrow> uint256 \<Rightarrow> nat list \<Rightarrow> uint256 list \<Rightarrow> uint256 list option" where
  "push_spenders p h [] txToRemove = Some txToRemove"
| "push_spenders p h (i # rest) txToRemove =
     (case fmlookup (mapNextTx p) (COutPoint h i) of
        None \<Rightarrow> push_spenders p h rest txToRemove
      | Some ip \<Rightarrow>
          (case fmlookup (mapTx p) (ptx ip) of
             None \<Rightarrow> None
           | Some e \<Rightarrow> push_spenders p h rest (txToRemove @ [hash (tx e)])))"

definition erase_inputs :: "CTxIn list \<Rightarrow> (COutPoint, CInPoint) fmap \<Rightarrow> (COutPoint, CInPoint) fmap" where
  "erase_inputs ins m = fold (\<lambda>txin. fmdrop (prevout txin)) ins m"

definition erase_entry :: "CTxMemPool \<Rightarrow> uint256 \<Rightarrow> CTxMemPoolEntry \<Rightarrow> CTxMemPool" where
  "erase_entry p h e =
     (let p1 = p\<lparr>mapNextTx := erase_inputs (vin (tx e)) (mapNextTx p)\<rparr>;
          p2 = p1\<lparr>totalTxSize := totalTxSize p1 - of_nat (nTxSize e)\<rparr>;
          p3 = p2\<lparr>mapTx := fmdrop h (mapTx p2)\<rparr>;
          p4 = p3\<lparr>nTransactionsUpdated := nTransactionsUpdated p3 + 1\<rparr>
      in est_call (RemoveTx h) p4)"

function remove_loop :: "bool \<Rightarrow> CTxMemPool \<Rightarrow> uint256 list \<Rightarrow> CTransaction list \<Rightarrow> (CTxMemPool \<times> CTransaction list) option" where
  "remove_loop fRecursive p [] removed = Some (p, removed)"
| "remove_loop fRecursive p (h # txToRemove) removed =
     (case fmlookup (mapTx p) h of
        None \<Rightarrow> remove_loop fRecursive p txToRemove removed
      | Some e \<Rightarrow>
          (case (if fRecursive then push_spenders p h [0..<length (vout (tx e))] txToRemove
                 else Some txToRemove) of
             None \<Rightarrow> None
           | Some q \<Rightarrow> remove_loop fRecursive (erase_entry p h e) q (removed @ [tx e])))"
  by pat_completeness auto
termination
proof (relation "measures [\<lambda>(r, p, q, removed). card (fmdom' (mapTx p)), \<lambda>(r, p, q, removed). length q]")
  show "wf (measures [\<lambda>(r, p, q, removed). card (fmdom' (mapTx p)), \<lambda>(r, p, q, removed). length q])"
    by simp
next
  fix fRecursive :: bool and p :: CTxMemPool and h :: uint256 and txToRemove :: "uint256 list"
    and removed :: "CTransaction list"
  show "((fRecursive, p, txToRemove, removed), (fRecursive, p, h # txToRemove, removed))
          \<in> measures [\<lambda>(r, p, q, removed). card (fmdom' (mapTx p)), \<lambda>(r, p, q, removed). length q]"
    by simp
next
  fix fRecursive :: bool and p :: CTxMemPool and h :: uint256 and txToRemove :: "uint256 list"
    and removed :: "CTransaction list" and e :: CTxMemPoolEntry and q :: "uint256 list"
  assume "fmlookup (mapTx p) h = Some e"
  then have "h \<in> fmdom' (mapTx p)"
    by (rule fmdom'I)
  then have "card (fmdom' (mapTx p) - {h}) < card (fmdom' (mapTx p))"
    by (intro card_Diff1_less) simp_all
  then show "((fRecursive, erase_entry p h e, q, removed @ [tx e]), (fRecursive, p, h # txToRemove, removed))
          \<in> measures [\<lambda>(r, p, q, removed). card (fmdom' (mapTx p)), \<lambda>(r, p, q, removed). length q]"
    by (simp add: erase_entry_def est_call_def Let_def)
qed

definition remove :: "CTxMemPool \<Rightarrow> CTransaction \<Rightarrow> CTransaction list \<Rightarrow> bool \<Rightarrow> (CTxMemPool \<times> CTransaction list) option" where
  "remove p origTx removed fRecursive =
     (case (if fRecursive \<and> fmlookup (mapTx p) (hash origTx) = None
            then push_spenders p (hash origTx) [0..<length (vout origTx)] [hash origTx]
            else Some [hash origTx]) of
        None \<Rightarrow> None
      | Some txToRemove \<Rightarrow> remove_loop fRecursive p txToRemove removed)"

fun removeConflicts_loop :: "CTxMemPool \<Rightarrow> CTransaction \<Rightarrow> CTxIn list \<Rightarrow> CTransaction list \<Rightarrow> (CTxMemPool \<times> CTransaction list) option" where
  "removeConflicts_loop p t [] removed = Some (p, removed)"
| "removeConflicts_loop p t (txin # rest) removed =
     (case fmlookup (mapNextTx p) (prevout txin) of
        None \<Rightarrow> removeConflicts_loop p t rest removed
      | Some ip \<Rightarrow>
          (case fmlookup (mapTx p) (ptx ip) of
             None \<Rightarrow> None
           | Some e \<Rightarrow>
               (let txConflict = tx e in
                if hash txConflict \<noteq> hash t then
                  (case remove p txConflict removed True of
                     None \<Rightarrow> None
                   | Some (p1, removed1) \<Rightarrow> removeConflicts_loop p1 t rest removed1)
                else removeConflicts_loop p t rest removed)))"

definition removeConflicts :: "CTxMemPool \<Rightarrow> CTransaction \<Rightarrow> CTransaction list \<Rightarrow> (CTxMemPool \<times> CTransaction list) option" where
  "removeConflicts p t removed = removeConflicts_loop p t (vin t) removed"

definition ClearPrioritisation :: "CTxMemPool \<Rightarrow> uint256 \<Rightarrow> CTxMemPool" where
  "ClearPrioritisation p h = p\<lparr>mapDeltas := fmdrop h (mapDeltas p)\<rparr>"

definition PrioritiseTransaction :: "CTxMemPool \<Rightarrow> uint256 \<Rightarrow> real \<Rightarrow> CAmount \<Rightarrow> CTxMemPool" where
  "PrioritiseTransaction p h dPriorityDelta nFeeDelta =
     (let deltas = (case fmlookup (mapDeltas p) h of None \<Rightarrow> (0, 0) | Some d \<Rightarrow> d)
      in p\<lparr>mapDeltas := fmupd h (fst deltas + dPriorityDelta, snd deltas + nFeeDelta) (mapDeltas p)\<rparr>)"

definition ApplyDeltas :: "CTxMemPool \<Rightarrow> uint256 \<Rightarrow> real \<Rightarrow> CAmount \<Rightarrow> real \<times> CAmount" where
  "ApplyDeltas p h dPriorityDelta nFeeDelta =
     (case fmlookup (mapDeltas p) h of
        None \<Rightarrow> (dPriorityDelta, nFeeDelta)
      | Some deltas \<Rightarrow> (dPriorityDelta + fst deltas, nFeeDelta + snd deltas))"

fun collect_entries :: "CTxMemPool \<Rightarrow> CTransaction list \<Rightarrow> CTxMemPoolEntry list" where
  "collect_entries p [] = []"
| "collect_entries p (t # vtx) =
     (case fmlookup (mapTx p) (hash t) of
        None \<Rightarrow> collect_entries p vtx
      | Some e \<Rightarrow> e # collect_entries p vtx)"

fun removeForBlock_loop :: "CTxMemPool \<Rightarrow> CTransaction list \<Rightarrow> CTransaction list \<Rightarrow> (CTxMemPool \<times> CTransaction list) option" where
  "removeForBlock_loop p [] conflicts = Some (p, conflicts)"
| "removeForBlock_loop p (t # vtx) conflicts =
     (case remove p t [] False of
        None \<Rightarrow> None
      | Some (p1, dummy) \<Rightarrow>
          (case removeConflicts p1 t conflicts of
             None \<Rightarrow> None
           | Some (p2, conflicts2) \<Rightarrow>
               removeForBlock_loop (ClearPrioritisation p2 (hash t)) vtx conflicts2))"

definition removeForBlock :: "CTxMemPool \<Rightarrow> CTransaction list \<Rightarrow> 32 word \<Rightarrow> CTransaction list \<Rightarrow> bool \<Rightarrow> (CTxMemPool \<times> CTransaction list) option" where
  "removeForBlock p vtx nBlockHeight conflicts fCurrentEstimate =
     (let entries = collect_entries p vtx in
      case removeForBlock_loop p vtx conflicts of
        None \<Rightarrow> None
      | Some (p1, conflicts1) \<Rightarrow>
          Some (est_call (ProcessBlock nBlockHeight entries fCurrentEstimate) p1, conflicts1))"

definition clear :: "CTxMemPool \<Rightarrow> CTxMemPool" where
  "clear p =
     (let p1 = p\<lparr>mapTx := fmempty\<rparr>;
          p2 = p1\<lparr>mapNextTx := fmempty\<rparr>;
          p3 = p2\<lparr>totalTxSize := 0\<rparr>
      in p3\<lparr>nTransactionsUpdated := nTransactionsUpdated p3 + 1\<rparr>)"

subsection \<open>GetMinFee\<close>

text \<open>
  \<open>CFeeRate(rollingMinimumFeeRate)\<close> converts the \<open>double\<close> to \<open>CAmount\<close>, truncating
  towards zero; \<open>minRelayFee.GetFeePerK() / 2\<close> is a division of integers, truncating
  towards zero as well. The constant \<open>ROLLING_FEE_HALFLIFE\<close> (txmempool.h), the clock
  \<open>GetTime()\<close> and the result of \<open>DynamicMemoryUsage()\<close> (memusage.h) are parameters.
  The function is \<open>const\<close> but writes the two \<open>mutable\<close> members, so it returns the pool.
\<close>

definition double_to_CAmount :: "real \<Rightarrow> CAmount" where
  "double_to_CAmount r = (if r \<ge> 0 then \<lfloor>r\<rfloor> else \<lceil>r\<rceil>)"

definition max_CFeeRate :: "CFeeRate \<Rightarrow> CFeeRate \<Rightarrow> CFeeRate" where
  "max_CFeeRate a b = (if GetFeePerK a < GetFeePerK b then b else a)"

definition GetMinFee :: "real \<Rightarrow> CTxMemPool \<Rightarrow> int \<Rightarrow> nat \<Rightarrow> nat \<Rightarrow> CFeeRate \<times> CTxMemPool" where
  "GetMinFee ROLLING_FEE_HALFLIFE p time DynamicMemoryUsage sizelimit =
     (if rollingMinimumFeeRate p = 0 then (CFeeRate (double_to_CAmount (rollingMinimumFeeRate p)), p)
      else if time > lastRollingFeeUpdate p + 10 then
        (let halflife =
               (if DynamicMemoryUsage < sizelimit div 4 then ROLLING_FEE_HALFLIFE / 4
                else if DynamicMemoryUsage < sizelimit div 2 then ROLLING_FEE_HALFLIFE / 2
                else ROLLING_FEE_HALFLIFE);
             p1 = p\<lparr>rollingMinimumFeeRate :=
                      rollingMinimumFeeRate p / (2 powr (real_of_int (time - lastRollingFeeUpdate p) / halflife))\<rparr>;
             p2 = p1\<lparr>lastRollingFeeUpdate := time\<rparr>
         in if rollingMinimumFeeRate p2 < real_of_int (GetFeePerK (minRelayFee p2) sdiv 2)
            then (CFeeRate 0, p2\<lparr>rollingMinimumFeeRate := 0\<rparr>)
            else (max_CFeeRate (CFeeRate (double_to_CAmount (rollingMinimumFeeRate p2))) (minRelayFee p2), p2))
      else (max_CFeeRate (CFeeRate (double_to_CAmount (rollingMinimumFeeRate p))) (minRelayFee p), p))"

text \<open>
  The rolling minimum after the decay: the stored floor divided by 2 to the power of the
  time since the last update over the half-life, where the half-life is quartered for a pool
  under a quarter of the size limit and halved for one under half of it.
\<close>

definition decayed_rate :: "real \<Rightarrow> CTxMemPool \<Rightarrow> int \<Rightarrow> nat \<Rightarrow> nat \<Rightarrow> real" where
  "decayed_rate ROLLING_FEE_HALFLIFE p time DynamicMemoryUsage sizelimit =
     rollingMinimumFeeRate p
     / (2 powr (real_of_int (time - lastRollingFeeUpdate p)
                / (if DynamicMemoryUsage < sizelimit div 4 then ROLLING_FEE_HALFLIFE / 4
                   else if DynamicMemoryUsage < sizelimit div 2 then ROLLING_FEE_HALFLIFE / 2
                   else ROLLING_FEE_HALFLIFE)))"

subsection \<open>CCoinsViewMemPool::GetCoins\<close>

text \<open>
  \<open>CCoins\<close> (coins.h) is not among the sources: the type of coin records is a type
  variable, and the constructor \<open>CCoins(tx, height)\<close>, the test \<open>IsPruned\<close>, the constant
  \<open>MEMPOOL_HEIGHT\<close> and \<open>CCoinsViewBacked::GetCoins\<close> of the wrapped view are parameters.
  The wrapped view writes its result into the reference \<open>coins\<close> and returns a flag, so it
  maps the hash and the record passed in to the flag and the record left behind.
\<close>

definition GetCoins :: "(CTransaction \<Rightarrow> 32 word \<Rightarrow> 'coins) \<Rightarrow> ('coins \<Rightarrow> bool) \<Rightarrow> 32 word \<Rightarrow>
    (uint256 \<Rightarrow> 'coins \<Rightarrow> bool \<times> 'coins) \<Rightarrow> CTxMemPool \<Rightarrow> uint256 \<Rightarrow> 'coins \<Rightarrow> bool \<times> 'coins" where
  "GetCoins CCoins_of IsPruned MEMPOOL_HEIGHT base_GetCoins mempool txid coins =
     (case lookup mempool txid of
        Some t \<Rightarrow> (True, CCoins_of t MEMPOOL_HEIGHT)
      | None \<Rightarrow>
          (let (found, coins1) = base_GetCoins txid coins
           in (found \<and> \<not> IsPruned coins1, coins1)))"

subsection \<open>ReadFeeEstimates\<close>

text \<open>
  Modelled from the spec: \<open>CBlockPolicyEstimator::Read\<close> (policy/fees.cpp is not among the
  sources). It loads the bucketed sample rings, one \<open>CBlockAverage::Read\<close> into an empty
  ring per bucket of the estimator, and an exception of a ring aborts the load.
\<close>

fun read_buckets :: "nat \<Rightarrow> CAutoFile \<Rightarrow> CFeeRate \<Rightarrow> read_error + (CBlockAverage list \<times> CAutoFile)" where
  "read_buckets 0 filein minRelay = Inr ([], filein)"
| "read_buckets (Suc k) filein minRelay =
     (case Read CBlockAverage_init filein minRelay of
        Inl err \<Rightarrow> Inl err
      | Inr (b, filein1) \<Rightarrow>
          (case read_buckets k filein1 minRelay of
             Inl err \<Rightarrow> Inl err
           | Inr (bs, filein2) \<Rightarrow> Inr (b # bs, filein2)))"

definition estimator_Read :: "CBlockPolicyEstimator \<Rightarrow> CAutoFile \<Rightarrow> CFeeRate \<Rightarrow> read_error + (CBlockPolicyEstimator \<times> CAutoFile)" where
  "estimator_Read est filein minRelay =
     (case read_buckets (length (history est)) filein minRelay of
        Inl err \<Rightarrow> Inl err
      | Inr (bs, filein1) \<Rightarrow> Inr (est\<lparr>history := bs\<rparr>, filein1))"

text \<open>
  \<open>ReadFeeEstimates\<close> catches every \<open>std::exception\<close> and returns \<open>false\<close>. The
  constant \<open>CLIENT_VERSION\<close> (clientversion.h) is a parameter.
\<close>

definition ReadFeeEstimates :: "int \<Rightarrow> CTxMemPool \<Rightarrow> CAutoFile \<Rightarrow> bool \<times> CTxMemPool" where
  "ReadFeeEstimates CLIENT_VERSION p filein =
     (case filein of
        ItemInt nVersionRequired # ItemInt nVersionThatWrote # filein2 \<Rightarrow>
          if nVersionRequired > CLIENT_VERSION then (False, p)
          else
            (case estimator_Read (minerPolicyEstimator p) filein2 (minRelayFee p) of
               Inl err \<Rightarrow> (False, p)
             | Inr (est, filein3) \<Rightarrow> (True, p\<lparr>minerPolicyEstimator := est\<rparr>))
      | _ \<Rightarrow> (False, p))"

text \<open>
  What a stream holds, read without any check: the two version numbers and one pair of
  sample vectors per bucket; \<open>None\<close> when the stream is not of that shape, which is when
  reading it runs into a stream failure.
\<close>

fun parse_rings :: "nat \<Rightarrow> CAutoFile \<Rightarrow> (CFeeRate list \<times> double list) list option" where
  "parse_rings 0 filein = Some []"
| "parse_rings (Suc k) (ItemFeeVec vecFee # ItemDoubleVec vecPriority # filein) =
     (case parse_rings k filein of None \<Rightarrow> None | Some rs \<Rightarrow> Some ((vecFee, vecPriority) # rs))"
| "parse_rings (Suc k) filein = None"

definition parse_estimates :: "nat \<Rightarrow> CAutoFile \<Rightarrow> (int \<times> int \<times> (CFeeRate list \<times> double list) list) option" where
  "parse_estimates k filein =
     (case filein of
        ItemInt nVersionRequired # ItemInt nVersionThatWrote # filein2 \<Rightarrow>
          (case parse_rings k filein2 of
             None \<Rightarrow> None
           | Some rs \<Rightarrow> Some (nVersionRequired, nVersionThatWrote, rs))
      | _ \<Rightarrow> None)"

definition fee_out_of_range :: "CFeeRate \<Rightarrow> CFeeRate \<Rightarrow> bool" where
  "fee_out_of_range minRelay fee = (GetFeePerK fee < 0 \<or> GetFeePerK fee > 10000 * GetFeePerK minRelay)"

text \<open>
  A negative sample: a finite number below zero, or the negative infinity. A NaN is not
  negative.
\<close>

fun is_negative :: "double \<Rightarrow> bool" where
  "is_negative (Finite r) = (r < 0)"
| "is_negative NegInf = True"
| "is_negative PosInf = False"
| "is_negative NaN = False"

text \<open>
  When a load fails, in the words of the spec (\<open>load_fails\<close>), and with a priority sample
  that is not a number failing the load as well (\<open>load_fails_nan\<close>).
\<close>

definition load_fails_with :: "(double \<Rightarrow> bool) \<Rightarrow> int \<Rightarrow> CFeeRate \<Rightarrow> nat \<Rightarrow> CAutoFile \<Rightarrow> bool" where
  "load_fails_with bad_priority CLIENT_VERSION minRelay k filein =
     (case parse_estimates k filein of
        None \<Rightarrow> True
      | Some (nVersionRequired, nVersionThatWrote, rs) \<Rightarrow>
          nVersionRequired > CLIENT_VERSION
          \<or> list_ex (\<lambda>(vecFee, vecPriority). list_ex (fee_out_of_range minRelay) vecFee) rs
          \<or> list_ex (\<lambda>(vecFee, vecPriority). list_ex bad_priority vecPriority) rs)"

definition load_fails :: "int \<Rightarrow> CFeeRate \<Rightarrow> nat \<Rightarrow> CAutoFile \<Rightarrow> bool" where
  "load_fails = load_fails_with is_negative"

definition load_fails_nan :: "int \<Rightarrow> CFeeRate \<Rightarrow> nat \<Rightarrow> CAutoFile \<Rightarrow> bool" where
  "load_fails_nan = load_fails_with (\<lambda>priority. is_negative priority \<or> priority = NaN)"

definition int64_range :: "int \<Rightarrow> bool" where
  "int64_range x \<longleftrightarrow> - (2 ^ 63) \<le> x \<and> x < 2 ^ 63"

definition ring_of :: "CFeeRate list \<times> double list \<Rightarrow> CBlockAverage" where
  "ring_of r = \<lparr>feeSamples = cb_insert_end [] (fst r), prioritySamples = cb_insert_end [] (snd r)\<rparr>"

section \<open>Well-formed pools, and what the properties are stated with\<close>

text \<open>
  \<open>pool_inv\<close> is the invariant of the data model: every entry is stored under the hash of
  its transaction, every input of an entry is indexed in \<open>mapNextTx\<close> under its outpoint
  with that entry and that input index, and every record of \<open>mapNextTx\<close> points at a
  resident entry that declares the key at the recorded index.
\<close>

definition prevouts :: "CTransaction \<Rightarrow> COutPoint list" where
  "prevouts t = map prevout (vin t)"

definition pool_inv :: "CTxMemPool \<Rightarrow> bool" where
  "pool_inv p \<longleftrightarrow>
     fmpred (\<lambda>h e. hash (tx e) = h
               \<and> (\<forall>i < length (vin (tx e)).
                     fmlookup (mapNextTx p) (prevout (vin (tx e) ! i)) = Some (CInPoint h i)))
       (mapTx p)
     \<and> fmpred (\<lambda>out ip. case fmlookup (mapTx p) (ptx ip) of
                           None \<Rightarrow> False
                         | Some e \<Rightarrow> inpoint_n ip < length (vin (tx e))
                                     \<and> prevout (vin (tx e) ! inpoint_n ip) = out)
       (mapNextTx p)"

definition input_count :: "CTxMemPool \<Rightarrow> nat" where
  "input_count p = (\<Sum>h \<in> fmdom' (mapTx p). length (vin (tx (the (fmlookup (mapTx p) h)))))"

definition no_input_conflict :: "CTxMemPool \<Rightarrow> CTxMemPoolEntry \<Rightarrow> bool" where
  "no_input_conflict p e \<longleftrightarrow>
     fmpred (\<lambda>h' e'. set (prevouts (tx e')) \<inter> set (prevouts (tx e)) = {}) (mapTx p)"

text \<open>
  A transaction is admitted under its own hash, and the hash identifies the transaction: an
  entry that is resident under that hash holds the same transaction.
\<close>

definition admits_own_hash :: "CTxMemPool \<Rightarrow> uint256 \<Rightarrow> CTxMemPoolEntry \<Rightarrow> bool" where
  "admits_own_hash p h e \<longleftrightarrow>
     hash (tx e) = h \<and> (case fmlookup (mapTx p) h of None \<Rightarrow> True | Some e' \<Rightarrow> tx e' = tx e)"

definition admit_stated :: "CTxMemPool \<Rightarrow> uint256 \<Rightarrow> CTxMemPoolEntry \<Rightarrow> bool" where
  "admit_stated p h e \<longleftrightarrow> admits_own_hash p h e \<and> no_input_conflict p e"

definition admit_amended :: "CTxMemPool \<Rightarrow> uint256 \<Rightarrow> CTxMemPoolEntry \<Rightarrow> bool" where
  "admit_amended p h e \<longleftrightarrow> admit_stated p h e \<and> distinct (prevouts (tx e))"

datatype pool_op = Admit uint256 CTxMemPoolEntry bool | Remove CTransaction bool

fun run_ops :: "CTxMemPool \<Rightarrow> pool_op list \<Rightarrow> CTxMemPool option" where
  "run_ops p [] = Some p"
| "run_ops p (Admit h e fCurrentEstimate # ops) = run_ops (snd (addUnchecked p h e fCurrentEstimate)) ops"
| "run_ops p (Remove t fRecursive # ops) =
     (case remove p t [] fRecursive of None \<Rightarrow> None | Some (p1, removed) \<Rightarrow> run_ops p1 ops)"

fun caller_contract :: "(CTxMemPool \<Rightarrow> uint256 \<Rightarrow> CTxMemPoolEntry \<Rightarrow> bool) \<Rightarrow> CTxMemPool \<Rightarrow> pool_op list \<Rightarrow> bool" where
  "caller_contract established p [] = True"
| "caller_contract established p (Admit h e fCurrentEstimate # ops) =
     (established p h e \<and> caller_contract established (snd (addUnchecked p h e fCurrentEstimate)) ops)"
| "caller_contract established p (Remove t fRecursive # ops) =
     (case remove p t [] fRecursive of
        None \<Rightarrow> True
      | Some (p1, removed) \<Rightarrow> caller_contract established p1 ops)"

definition spends_output_of :: "CTxMemPool \<Rightarrow> (uint256 \<times> uint256) set" where
  "spends_output_of p =
     {(a, b). \<exists>ea eb i. fmlookup (mapTx p) a = Some ea \<and> fmlookup (mapTx p) b = Some eb
                \<and> i < length (vout (tx ea)) \<and> COutPoint a i \<in> set (prevouts (tx eb))}"

definition spenders_of :: "CTxMemPool \<Rightarrow> CTransaction \<Rightarrow> uint256 set" where
  "spenders_of p t =
     {b. \<exists>eb i. fmlookup (mapTx p) b = Some eb \<and> i < length (vout t)
           \<and> COutPoint (hash t) i \<in> set (prevouts (tx eb))}"

definition removal_set :: "CTxMemPool \<Rightarrow> CTransaction \<Rightarrow> uint256 set" where
  "removal_set p t =
     (spends_output_of p)\<^sup>* `` (if hash t \<in> fmdom' (mapTx p) then {hash t} else spenders_of p t)"

definition shrinks :: "CTxMemPool \<Rightarrow> CTxMemPool \<Rightarrow> bool" where
  "shrinks p p' \<longleftrightarrow>
     (\<forall>h e. fmlookup (mapTx p') h = Some e \<longrightarrow> fmlookup (mapTx p) h = Some e)
     \<and> (\<forall>out ip. fmlookup (mapNextTx p') out = Some ip \<longrightarrow> fmlookup (mapNextTx p) out = Some ip)
     \<and> minRelayFee p' = minRelayFee p
     \<and> rollingMinimumFeeRate p' = rollingMinimumFeeRate p
     \<and> lastRollingFeeUpdate p' = lastRollingFeeUpdate p
     \<and> history (minerPolicyEstimator p') = history (minerPolicyEstimator p)
     \<and> (\<exists>hs. calls (minerPolicyEstimator p') = calls (minerPolicyEstimator p) @ map RemoveTx hs)"

subsection \<open>Example transactions\<close>

text \<open>
  A chain \<open>T1 \<leftarrow> T2 \<leftarrow> T3\<close> (each spends output 0 of its predecessor), an unrelated
  \<open>T4\<close>, and a transaction \<open>B\<close> that spends the outpoint \<open>T4\<close> spends.
\<close>

definition tx_T1 :: CTransaction where
  "tx_T1 = \<lparr>hash = 1, vin = [CTxIn (COutPoint 100 0)], vout = [CTxOut 50]\<rparr>"

definition tx_T2 :: CTransaction where
  "tx_T2 = \<lparr>hash = 2, vin = [CTxIn (COutPoint 1 0)], vout = [CTxOut 40]\<rparr>"

definition tx_T3 :: CTransaction where
  "tx_T3 = \<lparr>hash = 3, vin = [CTxIn (COutPoint 2 0)], vout = [CTxOut 30]\<rparr>"

definition tx_T4 :: CTransaction where
  "tx_T4 = \<lparr>hash = 4, vin = [CTxIn (COutPoint 101 0)], vout = [CTxOut 20]\<rparr>"

definition tx_B :: CTransaction where
  "tx_B = \<lparr>hash = 10, vin = [CTxIn (COutPoint 101 0)], vout = [CTxOut 20]\<rparr>"

definition entry_of :: "CTransaction \<Rightarrow> CTxMemPoolEntry" where
  "entry_of t = \<lparr>tx = t, nFee = 1000, nTxSize = 250, nModSize = 250, nTime = 0, dPriority = 0,
                 nHeight = 100, hadNoDependencies = True\<rparr>"

definition admit :: "CTransaction \<Rightarrow> CTxMemPool \<Rightarrow> CTxMemPool" where
  "admit t p = snd (addUnchecked p (hash t) (entry_of t) True)"

definition pool_chain :: CTxMemPool where
  "pool_chain = admit tx_T4 (admit tx_T3 (admit tx_T2 (admit tx_T1 (CTxMemPool_init (CFeeRate 1000)))))"

definition pool_orphans :: CTxMemPool where
  "pool_orphans = admit tx_T4 (admit tx_T3 (admit tx_T2 (CTxMemPool_init (CFeeRate 1000))))"

section \<open>Properties\<close>

subsection \<open>clear and the prioritisation deltas\<close>

text \<open>
  C10: \<open>clear\<close> empties \<open>mapTx\<close> and \<open>mapNextTx\<close>, resets \<open>totalTxSize\<close>, increments
  \<open>nTransactionsUpdated\<close> and leaves \<open>mapDeltas\<close> as it was, so that \<open>ApplyDeltas\<close> for a
  hash with a recorded delta still adds that delta onto the values passed in, as it did
  before \<open>clear\<close>.
\<close>

theorem clear_keeps_deltas:
  "mapTx (clear p) = fmempty \<and> mapNextTx (clear p) = fmempty \<and> totalTxSize (clear p) = 0
   \<and> nTransactionsUpdated (clear p) = nTransactionsUpdated p + 1
   \<and> mapDeltas (clear p) = mapDeltas p
   \<and> ApplyDeltas (clear p) h dPriorityDelta nFeeDelta = ApplyDeltas p h dPriorityDelta nFeeDelta
   \<and> (fmlookup (mapDeltas p) h = Some (dP, nF) \<longrightarrow>
        ApplyDeltas (clear p) h dPriorityDelta nFeeDelta = (dPriorityDelta + dP, nFeeDelta + nF))"
  by (simp add: clear_def ApplyDeltas_def Let_def)

theorem clear_keeps_deltas_witness:
  "fmlookup (mapDeltas (PrioritiseTransaction (CTxMemPool_init (CFeeRate 1000)) 7 3 100)) 7 = Some (3, 100)
   \<and> ApplyDeltas (clear (PrioritiseTransaction (CTxMemPool_init (CFeeRate 1000)) 7 3 100)) 7 1 20 = (4, 120)"
proof -
  have d: "fmlookup (mapDeltas (PrioritiseTransaction (CTxMemPool_init (CFeeRate 1000)) 7 3 100)) 7 = Some (3, 100)"
    by (simp add: PrioritiseTransaction_def CTxMemPool_init_def)
  have "ApplyDeltas (clear (PrioritiseTransaction (CTxMemPool_init (CFeeRate 1000)) 7 3 100)) 7 1 20 = (1 + 3, 20 + 100)"
    using d clear_keeps_deltas [of "PrioritiseTransaction (CTxMemPool_init (CFeeRate 1000)) 7 3 100" 7 1 20 3 100]
    by blast
  with d show ?thesis
    by simp
qed

subsection \<open>The coins view over the pool\<close>

text \<open>
  C9: for a pool-resident \<open>txid\<close>, \<open>GetCoins\<close> returns true with the coin record built
  from the pool transaction and \<open>MEMPOOL_HEIGHT\<close>; otherwise it returns the record of the
  wrapped view, with the flag of the wrapped view except that a pruned record is reported
  as not found.
\<close>

theorem GetCoins_overlay:
  "(fmlookup (mapTx mempool) txid = Some e \<longrightarrow>
      GetCoins CCoins_of IsPruned MEMPOOL_HEIGHT base_GetCoins mempool txid coins
        = (True, CCoins_of (tx e) MEMPOOL_HEIGHT))
   \<and> (fmlookup (mapTx mempool) txid = None \<longrightarrow>
      GetCoins CCoins_of IsPruned MEMPOOL_HEIGHT base_GetCoins mempool txid coins
        = (fst (base_GetCoins txid coins) \<and> \<not> IsPruned (snd (base_GetCoins txid coins)),
           snd (base_GetCoins txid coins)))"
  by (simp add: GetCoins_def lookup_def split: prod.splits)

theorem GetCoins_overlay_witness:
  "GetCoins (\<lambda>t h. (length (vout t), h)) (\<lambda>c. fst c = 0) (0x7FFFFFFF :: 32 word) (\<lambda>txid c. (txid = 5, (0, 10)))
     (snd (addUnchecked (CTxMemPool_init (CFeeRate 1000)) 1
        \<lparr>tx = \<lparr>hash = 1, vin = [], vout = [CTxOut 50]\<rparr>, nFee = 10, nTxSize = 100, nModSize = 100,
         nTime = 0, dPriority = 0, nHeight = 7, hadNoDependencies = True\<rparr> True)) 1 (0, 0)
     = (True, (1, 0x7FFFFFFF))
   \<and> GetCoins (\<lambda>t h. (length (vout t), h)) (\<lambda>c. fst c = 0) (0x7FFFFFFF :: 32 word) (\<lambda>txid c. (txid = 5, (0, 10)))
     (snd (addUnchecked (CTxMemPool_init (CFeeRate 1000)) 1
        \<lparr>tx = \<lparr>hash = 1, vin = [], vout = [CTxOut 50]\<rparr>, nFee = 10, nTxSize = 100, nModSize = 100,
         nTime = 0, dPriority = 0, nHeight = 7, hadNoDependencies = True\<rparr> True)) 5 (0, 0)
     = (False, (0, 10))"
proof -
  let ?e = "\<lparr>tx = \<lparr>hash = 1, vin = [], vout = [CTxOut 50]\<rparr>, nFee = 10, nTxSize = 100, nModSize = 100,
         nTime = 0, dPriority = 0, nHeight = 7 :: 32 word, hadNoDependencies = True\<rparr>"
  let ?p = "snd (addUnchecked (CTxMemPool_init (CFeeRate 1000)) 1 ?e True)"
  have r: "fmlookup (mapTx ?p) 1 = Some ?e" and a: "fmlookup (mapTx ?p) 5 = None"
    by (simp_all add: addUnchecked_def CTxMemPool_init_def est_call_def Let_def)
  note thm1 = GetCoins_overlay [of ?p 1 ?e "\<lambda>t h. (length (vout t), h)" "\<lambda>c. fst c = 0" "0x7FFFFFFF" "\<lambda>txid c. (txid = 5, (0, 10))" "(0, 0)"]
  note thm2 = GetCoins_overlay [of ?p 5 ?e "\<lambda>t h. (length (vout t), h)" "\<lambda>c. fst c = 0" "0x7FFFFFFF" "\<lambda>txid c. (txid = 5, (0, 10))" "(0, 0)"]
  from thm1 r have 1: "GetCoins (\<lambda>t h. (length (vout t), h)) (\<lambda>c. fst c = 0) (0x7FFFFFFF :: 32 word) (\<lambda>txid c. (txid = 5, (0, 10))) ?p 1 (0, 0)
     = (True, (length (vout (tx ?e)), 0x7FFFFFFF))"
    by blast
  from thm2 a have 2: "GetCoins (\<lambda>t h. (length (vout t), h)) (\<lambda>c. fst c = 0) (0x7FFFFFFF :: 32 word) (\<lambda>txid c. (txid = 5, (0, 10))) ?p 5 (0, 0)
     = (fst (5 = (5::nat), (0::nat, 10 :: 32 word)) \<and> \<not> (fst (snd (5 = (5::nat), (0::nat, 10:: 32 word))) = 0), snd (5 = (5::nat), (0::nat, 10 :: 32 word)))"
    by blast
  show ?thesis
    using 1 2 by simp
qed

subsection \<open>Priority of an entry\<close>




subsection \<open>Persistence of the sample rings\<close>

lemma int64_mul_exact: "int64_range (a * b) \<Longrightarrow> int64_mul a b = a * b"
proof -
  assume "int64_range (a * b)"
  then have "signed_take_bit 63 (a * b) = a * b"
    by (intro signed_take_bit_int_eq_self) (simp_all add: int64_range_def)
  then have "signed_take_bit (LENGTH(64) - 1) (a * b) = a * b"
    by simp
  moreover have "int64_mul a b = sint (word_of_int (a * b) :: 64 word)"
    by (simp add: int64_mul_def)
  moreover have "sint (word_of_int (a * b) :: 64 word) = signed_take_bit (LENGTH(64) - 1) (a * b)"
    by (rule sint_sbintrunc')
  ultimately show ?thesis
    by (simp only:)
qed

lemma AreSane_fee_wraps: "\<not> AreSane_fee (CFeeRate 1) (CFeeRate 1000000000000000)"
  by (simp add: AreSane_fee_def int64_mul_def)

lemma AreSane_fees_iff:
  "int64_range (10000 * GetFeePerK minRelay) \<Longrightarrow>
     AreSane_fees vecFee minRelay \<longleftrightarrow> \<not> list_ex (fee_out_of_range minRelay) vecFee"
  by (induction vecFee) (auto simp: AreSane_fee_def fee_out_of_range_def int64_mul_exact mult.commute)

lemma AreSane_priority_iff: "AreSane_priority priority \<longleftrightarrow> \<not> (is_negative priority \<or> priority = NaN)"
  by (cases priority) (auto simp: AreSane_priority_def)

lemma AreSane_priorities_iff:
  "AreSane_priorities vecPriority \<longleftrightarrow> \<not> list_ex (\<lambda>priority. is_negative priority \<or> priority = NaN) vecPriority"
  by (induction vecPriority) (simp_all add: AreSane_priority_iff)

lemma cb_insert_end_fits: "length vec \<le> ring_capacity \<Longrightarrow> cb_insert_end [] vec = vec"
  by (simp add: cb_insert_end_def)

text \<open>
  C7: for a ring (at most 100 fee samples and at most 100 priority samples) whose samples
  all pass the sanity checks, \<open>Write\<close> followed by \<open>Read\<close> of the written stream into an
  empty ring gives back the same fee samples and the same priority samples, in order.
\<close>

theorem Write_Read_roundtrip:
  assumes "length (feeSamples b) \<le> ring_capacity" and "length (prioritySamples b) \<le> ring_capacity"
    and "AreSane_fees (feeSamples b) minRelay" and "AreSane_priorities (prioritySamples b)"
  shows "\<exists>b'. Read CBlockAverage_init (Write b []) minRelay = Inr (b', [])
           \<and> feeSamples b' = feeSamples b \<and> prioritySamples b' = prioritySamples b"
  using assms
  by (simp add: Read_def Write_def buf2vec_def CBlockAverage_init_def Let_def cb_insert_end_fits)

theorem Write_Read_roundtrip_witness:
  "Read CBlockAverage_init
     (Write \<lparr>feeSamples = [CFeeRate 1000, CFeeRate 2500], prioritySamples = [Finite 0, Finite 57.5, PosInf]\<rparr> [])
     (CFeeRate 1000)
     = Inr (\<lparr>feeSamples = [CFeeRate 1000, CFeeRate 2500], prioritySamples = [Finite 0, Finite 57.5, PosInf]\<rparr>, [])"
proof -
  let ?b = "\<lparr>feeSamples = [CFeeRate 1000, CFeeRate 2500], prioritySamples = [Finite 0, Finite 57.5, PosInf]\<rparr>"
  have "int64_range (1000 * 10000)"
    by (simp add: int64_range_def)
  then have m: "int64_mul 1000 10000 = 10000000"
    by (simp add: int64_mul_exact)
  have "length (feeSamples ?b) \<le> ring_capacity" and "length (prioritySamples ?b) \<le> ring_capacity"
    and "AreSane_fees (feeSamples ?b) (CFeeRate 1000)" and "AreSane_priorities (prioritySamples ?b)"
    by (simp_all add: ring_capacity_def AreSane_fee_def AreSane_priority_def m)
  from Write_Read_roundtrip [OF this]
  show ?thesis
    by auto
qed

lemma Read_parse:
  "Read CBlockAverage_init filein minRelay =
     (case filein of
        ItemFeeVec vecFee # ItemDoubleVec vecPriority # filein2 \<Rightarrow>
          if \<not> AreSane_fees vecFee minRelay then Inl CorruptFee
          else if \<not> AreSane_priorities vecPriority then Inl CorruptPriority
          else Inr (ring_of (vecFee, vecPriority), filein2)
      | ItemFeeVec vecFee # _ \<Rightarrow>
          if \<not> AreSane_fees vecFee minRelay then Inl CorruptFee else Inl StreamFailure
      | _ \<Rightarrow> Inl StreamFailure)"
  by (simp add: Read_def ring_of_def CBlockAverage_init_def Let_def
      split: list.splits stream_item.splits)

lemma read_buckets_malformed:
  "parse_rings k filein = None \<Longrightarrow> isl (read_buckets k filein minRelay)"
proof (induction k filein rule: parse_rings.induct)
  case (2 k vecFee vecPriority filein)
  then show ?case
    by (auto simp: Read_parse split: sum.splits option.splits)
qed (auto simp: Read_parse split: stream_item.splits list.splits)

lemma read_buckets_wellformed:
  "parse_rings k filein = Some rs \<Longrightarrow>
     (if list_ex (\<lambda>(vecFee, vecPriority). \<not> AreSane_fees vecFee minRelay) rs
         \<or> list_ex (\<lambda>(vecFee, vecPriority). \<not> AreSane_priorities vecPriority) rs
      then isl (read_buckets k filein minRelay)
      else read_buckets k filein minRelay = Inr (map ring_of rs, drop (2 * k) filein))"
proof (induction k filein arbitrary: rs rule: parse_rings.induct)
  case (2 k vecFee vecPriority filein)
  from "2.prems" obtain rs' where rs': "parse_rings k filein = Some rs'" and rs: "rs = (vecFee, vecPriority) # rs'"
    by (auto split: option.splits)
  from "2.IH" [OF rs'] show ?case
    by (auto simp: Read_parse rs split: sum.splits if_splits)
qed simp_all

lemma insane_rings_iff:
  assumes "int64_range (10000 * GetFeePerK minRelay)"
  shows "list_ex (\<lambda>(vecFee, vecPriority). \<not> AreSane_fees vecFee minRelay) rs
           \<longleftrightarrow> list_ex (\<lambda>(vecFee, vecPriority). list_ex (fee_out_of_range minRelay) vecFee) rs"
    and "list_ex (\<lambda>(vecFee, vecPriority). \<not> AreSane_priorities vecPriority) rs
           \<longleftrightarrow> list_ex (\<lambda>(vecFee, vecPriority). list_ex (\<lambda>priority. is_negative priority \<or> priority = NaN) vecPriority) rs"
  by (induction rs) (auto simp: AreSane_fees_iff [OF assms] AreSane_priorities_iff)

lemma ReadFeeEstimates_header:
  "ReadFeeEstimates CLIENT_VERSION p (ItemInt v # ItemInt w # rest) =
     (if v > CLIENT_VERSION then (False, p)
      else (case read_buckets (length (history (minerPolicyEstimator p))) rest (minRelayFee p) of
              Inl err \<Rightarrow> (False, p)
            | Inr (bs, filein3) \<Rightarrow> (True, p\<lparr>minerPolicyEstimator := (minerPolicyEstimator p)\<lparr>history := bs\<rparr>\<rparr>)))"
  by (simp add: ReadFeeEstimates_def estimator_Read_def split: sum.splits)

lemma parse_estimates_header:
  "parse_estimates k (ItemInt v # ItemInt w # rest) =
     (case parse_rings k rest of None \<Rightarrow> None | Some rs \<Rightarrow> Some (v, w, rs))"
  by (simp add: parse_estimates_def)

lemma no_header:
  assumes "\<nexists>v w rest. filein = ItemInt v # ItemInt w # rest"
  shows "ReadFeeEstimates CLIENT_VERSION p filein = (False, p)" and "parse_estimates k filein = None"
proof -
  consider "filein = []" | x where "filein = [x]" | v rest where "filein = ItemFeeVec v # rest"
    | v rest where "filein = ItemDoubleVec v # rest"
    | v u rest where "filein = ItemInt v # ItemFeeVec u # rest"
    | v u rest where "filein = ItemInt v # ItemDoubleVec u # rest"
    | v w rest where "filein = ItemInt v # ItemInt w # rest"
  proof (cases filein)
    case Nil
    then show ?thesis using that by blast
  next
    case (Cons x xs)
    then show ?thesis
      using that by (cases x; cases xs; cases "hd xs") auto
  qed
  then show "ReadFeeEstimates CLIENT_VERSION p filein = (False, p)"
    using assms by cases (simp_all add: ReadFeeEstimates_def split: stream_item.splits)
  show "parse_estimates k filein = None"
    using \<open>ReadFeeEstimates CLIENT_VERSION p filein = (False, p)\<close> assms
    by (simp add: parse_estimates_def ReadFeeEstimates_def split: list.splits stream_item.splits)
qed

text \<open>
  C6 as stated: \<open>ReadFeeEstimates\<close> returns false exactly when the stream fails, or the
  required version is above \<open>CLIENT_VERSION\<close>, or some persisted fee sample is negative or
  above 10000 times the relay fee per kilobyte, or some persisted priority sample is
  negative. It fails for a file whose only priority sample is a NaN: no sample is negative,
  the fee sample is in range, the version is accepted and the stream is whole, and the load
  fails, because \<open>AreSane\<close> asks for \<open>priority >= 0\<close>.
\<close>

theorem ReadFeeEstimates_counterexample:
  "fst (ReadFeeEstimates 130000
          ((CTxMemPool_init (CFeeRate 1000))\<lparr>minerPolicyEstimator := \<lparr>calls = [], history = [CBlockAverage_init]\<rparr>\<rparr>)
          [ItemInt 120000, ItemInt 130000, ItemFeeVec [CFeeRate 5000], ItemDoubleVec [NaN]]) = False
   \<and> \<not> load_fails 130000 (CFeeRate 1000) 1
          [ItemInt 120000, ItemInt 130000, ItemFeeVec [CFeeRate 5000], ItemDoubleVec [NaN]]"
proof -
  have "int64_range (1000 * 10000)"
    by (simp add: int64_range_def)
  then have m: "int64_mul 1000 10000 = 10000000"
    by (simp add: int64_mul_exact)
  show ?thesis
    by (simp add: ReadFeeEstimates_def estimator_Read_def Read_def CTxMemPool_init_def CBlockAverage_init_def
        AreSane_fee_def AreSane_priority_def m load_fails_def load_fails_with_def parse_estimates_def
        fee_out_of_range_def)
qed

text \<open>
  C6, amended: where 10000 times the relay fee per kilobyte fits a 64-bit signed integer,
  \<open>ReadFeeEstimates\<close> returns false exactly when the stream fails (it does not hold two
  version numbers and the rings of every bucket), or the required version is above
  \<open>CLIENT_VERSION\<close>, or some persisted fee sample is negative or above 10000 times the
  relay fee per kilobyte, or some persisted priority sample is negative or not a number. It
  always returns; a failed load leaves the pool as it was, and a successful one accepts the
  samples.
\<close>

theorem ReadFeeEstimates_fails_iff:
  assumes "int64_range (10000 * GetFeePerK (minRelayFee p))"
  shows "(fst (ReadFeeEstimates CLIENT_VERSION p filein) = False
      \<longleftrightarrow> load_fails_nan CLIENT_VERSION (minRelayFee p) (length (history (minerPolicyEstimator p))) filein)
   \<and> (fst (ReadFeeEstimates CLIENT_VERSION p filein) = False \<longrightarrow> snd (ReadFeeEstimates CLIENT_VERSION p filein) = p)
   \<and> (\<forall>nVersionRequired nVersionThatWrote rs.
        fst (ReadFeeEstimates CLIENT_VERSION p filein)
        \<and> parse_estimates (length (history (minerPolicyEstimator p))) filein = Some (nVersionRequired, nVersionThatWrote, rs)
        \<longrightarrow> history (minerPolicyEstimator (snd (ReadFeeEstimates CLIENT_VERSION p filein))) = map ring_of rs)"
proof -
  let ?k = "length (history (minerPolicyEstimator p))"
  note defs = load_fails_nan_def load_fails_with_def
  show ?thesis
  proof (cases "\<exists>v w rest. filein = ItemInt v # ItemInt w # rest")
    case False
    then show ?thesis
      using no_header(1) [OF False, of CLIENT_VERSION p] no_header(2) [OF False, of ?k] by (simp add: defs)
  next
    case True
    then obtain v w rest where f: "filein = ItemInt v # ItemInt w # rest"
      by blast
    show ?thesis
    proof (cases "parse_rings ?k rest")
      case None
      from read_buckets_malformed [OF None, of "minRelayFee p"]
      obtain err where "read_buckets ?k rest (minRelayFee p) = Inl err"
        by (cases "read_buckets ?k rest (minRelayFee p)") auto
      with None show ?thesis
        by (simp add: f ReadFeeEstimates_header parse_estimates_header defs)
    next
      case (Some rs)
      let ?insane = "list_ex (\<lambda>(vecFee, vecPriority). \<not> AreSane_fees vecFee (minRelayFee p)) rs
         \<or> list_ex (\<lambda>(vecFee, vecPriority). \<not> AreSane_priorities vecPriority) rs"
      let ?bad = "list_ex (\<lambda>(vecFee, vecPriority). list_ex (fee_out_of_range (minRelayFee p)) vecFee) rs
         \<or> list_ex (\<lambda>(vecFee, vecPriority). list_ex (\<lambda>priority. is_negative priority \<or> priority = NaN) vecPriority) rs"
      have same: "?insane \<longleftrightarrow> ?bad"
        by (simp only: insane_rings_iff [OF assms])
      show ?thesis
      proof (cases ?insane)
        case True
        with read_buckets_wellformed [OF Some, of "minRelayFee p"]
        obtain err where "read_buckets ?k rest (minRelayFee p) = Inl err"
          by (cases "read_buckets ?k rest (minRelayFee p)") auto
        moreover from True same have ?bad
          by simp
        ultimately show ?thesis
          using Some by (simp add: f ReadFeeEstimates_header parse_estimates_header defs)
      next
        case False
        with read_buckets_wellformed [OF Some, of "minRelayFee p"]
        have "read_buckets ?k rest (minRelayFee p) = Inr (map ring_of rs, drop (2 * ?k) rest)"
          by auto
        moreover from False same have "\<not> ?bad"
          by simp
        ultimately show ?thesis
          using Some by (simp add: f ReadFeeEstimates_header parse_estimates_header defs)
      qed
    qed
  qed
qed

theorem ReadFeeEstimates_fails_iff_witness:
  "int64_range (10000 * GetFeePerK (minRelayFee
          ((CTxMemPool_init (CFeeRate 1000))\<lparr>minerPolicyEstimator := \<lparr>calls = [], history = [CBlockAverage_init]\<rparr>\<rparr>)))
   \<and> fst (ReadFeeEstimates 130000
          ((CTxMemPool_init (CFeeRate 1000))\<lparr>minerPolicyEstimator := \<lparr>calls = [], history = [CBlockAverage_init]\<rparr>\<rparr>)
          [ItemInt 120000, ItemInt 130000, ItemFeeVec [CFeeRate 5000], ItemDoubleVec [Finite 1]]) = True
   \<and> fst (ReadFeeEstimates 130000
          ((CTxMemPool_init (CFeeRate 1000))\<lparr>minerPolicyEstimator := \<lparr>calls = [], history = [CBlockAverage_init]\<rparr>\<rparr>)
          [ItemInt 120000, ItemInt 130000, ItemFeeVec [CFeeRate 10000001], ItemDoubleVec [Finite 1]]) = False
   \<and> fst (ReadFeeEstimates 130000
          ((CTxMemPool_init (CFeeRate 1000))\<lparr>minerPolicyEstimator := \<lparr>calls = [], history = [CBlockAverage_init]\<rparr>\<rparr>)
          [ItemInt 120000, ItemInt 130000, ItemFeeVec [CFeeRate 5000], ItemDoubleVec [NaN]]) = False
   \<and> fst (ReadFeeEstimates 130000
          ((CTxMemPool_init (CFeeRate 1000))\<lparr>minerPolicyEstimator := \<lparr>calls = [], history = [CBlockAverage_init]\<rparr>\<rparr>)
          [ItemInt 120000, ItemInt 130000, ItemFeeVec [CFeeRate 5000], ItemDoubleVec [Finite (- 1)]]) = False
   \<and> fst (ReadFeeEstimates 110000
          ((CTxMemPool_init (CFeeRate 1000))\<lparr>minerPolicyEstimator := \<lparr>calls = [], history = [CBlockAverage_init]\<rparr>\<rparr>)
          [ItemInt 120000, ItemInt 130000, ItemFeeVec [CFeeRate 5000], ItemDoubleVec [Finite 1]]) = False
   \<and> fst (ReadFeeEstimates 130000
          ((CTxMemPool_init (CFeeRate 1000))\<lparr>minerPolicyEstimator := \<lparr>calls = [], history = [CBlockAverage_init]\<rparr>\<rparr>)
          [ItemInt 120000, ItemInt 130000, ItemFeeVec [CFeeRate 5000]]) = False
   \<and> history (minerPolicyEstimator (snd (ReadFeeEstimates 130000
          ((CTxMemPool_init (CFeeRate 1000))\<lparr>minerPolicyEstimator := \<lparr>calls = [], history = [CBlockAverage_init]\<rparr>\<rparr>)
          [ItemInt 120000, ItemInt 130000, ItemFeeVec [CFeeRate 5000], ItemDoubleVec [Finite 1]])))
       = [\<lparr>feeSamples = [CFeeRate 5000], prioritySamples = [Finite 1]\<rparr>]"
proof -
  let ?p = "(CTxMemPool_init (CFeeRate 1000))\<lparr>minerPolicyEstimator := \<lparr>calls = [], history = [CBlockAverage_init]\<rparr>\<rparr>"
  let ?good = "[ItemInt 120000, ItemInt 130000, ItemFeeVec [CFeeRate 5000], ItemDoubleVec [Finite 1]]"
  let ?fee = "[ItemInt 120000, ItemInt 130000, ItemFeeVec [CFeeRate 10000001], ItemDoubleVec [Finite 1]]"
  let ?nan = "[ItemInt 120000, ItemInt 130000, ItemFeeVec [CFeeRate 5000], ItemDoubleVec [NaN]]"
  let ?neg = "[ItemInt 120000, ItemInt 130000, ItemFeeVec [CFeeRate 5000], ItemDoubleVec [Finite (- 1)]]"
  let ?cut = "[ItemInt 120000, ItemInt 130000, ItemFeeVec [CFeeRate 5000]]"
  note defs = load_fails_nan_def load_fails_with_def parse_estimates_def fee_out_of_range_def
  have k: "length (history (minerPolicyEstimator ?p)) = Suc 0" and m: "minRelayFee ?p = CFeeRate 1000"
    by (simp_all add: CTxMemPool_init_def)
  have r: "int64_range (10000 * GetFeePerK (minRelayFee ?p))"
    by (simp add: m int64_range_def)
  have pg: "parse_estimates (Suc 0) ?good = Some (120000, 130000, [([CFeeRate 5000], [Finite 1])])"
    by (simp add: parse_estimates_def)
  have g: "\<not> load_fails_nan 130000 (CFeeRate 1000) (Suc 0) ?good"
    by (simp add: defs)
  have b: "load_fails_nan 130000 (CFeeRate 1000) (Suc 0) ?fee"
    and n: "load_fails_nan 130000 (CFeeRate 1000) (Suc 0) ?nan"
    and e: "load_fails_nan 130000 (CFeeRate 1000) (Suc 0) ?neg"
    and v: "load_fails_nan 110000 (CFeeRate 1000) (Suc 0) ?good"
    and c: "load_fails_nan 130000 (CFeeRate 1000) (Suc 0) ?cut"
    by (simp_all add: defs)
  have 1: "fst (ReadFeeEstimates 130000 ?p ?good)"
    using ReadFeeEstimates_fails_iff [OF r, of 130000 ?good] g unfolding k m by blast
  have 2: "\<not> fst (ReadFeeEstimates 130000 ?p ?fee)"
    using ReadFeeEstimates_fails_iff [OF r, of 130000 ?fee] b unfolding k m by blast
  have 3: "\<not> fst (ReadFeeEstimates 130000 ?p ?nan)"
    using ReadFeeEstimates_fails_iff [OF r, of 130000 ?nan] n unfolding k m by blast
  have 4: "\<not> fst (ReadFeeEstimates 130000 ?p ?neg)"
    using ReadFeeEstimates_fails_iff [OF r, of 130000 ?neg] e unfolding k m by blast
  have 5: "\<not> fst (ReadFeeEstimates 110000 ?p ?good)"
    using ReadFeeEstimates_fails_iff [OF r, of 110000 ?good] v unfolding k m by blast
  have 6: "\<not> fst (ReadFeeEstimates 130000 ?p ?cut)"
    using ReadFeeEstimates_fails_iff [OF r, of 130000 ?cut] c unfolding k m by blast
  have 7: "history (minerPolicyEstimator (snd (ReadFeeEstimates 130000 ?p ?good))) = map ring_of [([CFeeRate 5000], [Finite 1])]"
    using ReadFeeEstimates_fails_iff [OF r, of 130000 ?good] 1 pg unfolding k m by blast
  from 7 have 8: "history (minerPolicyEstimator (snd (ReadFeeEstimates 130000 ?p ?good)))
       = [\<lparr>feeSamples = [CFeeRate 5000], prioritySamples = [Finite 1]\<rparr>]"
    by (simp add: ring_of_def cb_insert_end_def ring_capacity_def)
  from r 1 2 3 4 5 6 8 show ?thesis
    by simp
qed

subsection \<open>The rolling minimum fee\<close>

lemma max_CFeeRate_ge: "GetFeePerK b \<le> GetFeePerK (max_CFeeRate a b)"
  by (simp add: max_CFeeRate_def)

lemma sdiv_2_le_half: "0 \<le> k \<Longrightarrow> real_of_int (k sdiv 2) \<le> real_of_int k / 2"
proof -
  assume "0 \<le> k"
  then have "k sdiv 2 = k div 2"
    by (simp add: signed_divide_int_def sgn_if)
  moreover have "2 * (k div 2) \<le> k"
    by simp
  then have "2 * real_of_int (k div 2) \<le> real_of_int k"
    by (metis of_int_le_iff of_int_mult of_int_numeral)
  ultimately show ?thesis
    by simp
qed

text \<open>
  C8: a value returned by \<open>GetMinFee\<close> is zero, with the stored floor
  \<open>rollingMinimumFeeRate\<close> zero afterwards, or it is at least \<open>minRelayFee\<close>; it is never
  non-zero and below \<open>minRelayFee\<close>. The pool is written (the decay is recomputed) only
  when more than 10 seconds have passed since \<open>lastRollingFeeUpdate\<close>. When the decay is
  recomputed and the decayed floor is below half the relay fee (the integer half), zero is
  returned and the stored floor is set to zero; when it is not below, the decayed floor is
  stored and the larger of it and the relay fee is returned. For a positive relay fee, zero
  is returned exactly when the stored floor was zero already or the decay was recomputed
  and fell below the half, and then the decayed floor is below half the relay fee.
\<close>

theorem GetMinFee_floor:
  assumes "GetMinFee ROLLING_FEE_HALFLIFE p time DynamicMemoryUsage sizelimit = (r, p')"
  shows "(GetFeePerK r = 0 \<and> rollingMinimumFeeRate p' = 0 \<or> GetFeePerK (minRelayFee p) \<le> GetFeePerK r)
         \<and> \<not> (GetFeePerK r \<noteq> 0 \<and> GetFeePerK r < GetFeePerK (minRelayFee p))
         \<and> (\<not> time > lastRollingFeeUpdate p + 10 \<longrightarrow> p' = p)
         \<and> (rollingMinimumFeeRate p = 0 \<longrightarrow> p' = p)
         \<and> (rollingMinimumFeeRate p \<noteq> 0 \<and> time > lastRollingFeeUpdate p + 10 \<longrightarrow> lastRollingFeeUpdate p' = time)
         \<and> (rollingMinimumFeeRate p \<noteq> 0 \<and> time > lastRollingFeeUpdate p + 10
              \<and> decayed_rate ROLLING_FEE_HALFLIFE p time DynamicMemoryUsage sizelimit
                  < real_of_int (GetFeePerK (minRelayFee p) sdiv 2)
              \<longrightarrow> r = CFeeRate 0 \<and> rollingMinimumFeeRate p' = 0)
         \<and> (rollingMinimumFeeRate p \<noteq> 0 \<and> time > lastRollingFeeUpdate p + 10
              \<and> \<not> decayed_rate ROLLING_FEE_HALFLIFE p time DynamicMemoryUsage sizelimit
                  < real_of_int (GetFeePerK (minRelayFee p) sdiv 2)
              \<longrightarrow> rollingMinimumFeeRate p' = decayed_rate ROLLING_FEE_HALFLIFE p time DynamicMemoryUsage sizelimit
                  \<and> r = max_CFeeRate
                          (CFeeRate (double_to_CAmount
                             (decayed_rate ROLLING_FEE_HALFLIFE p time DynamicMemoryUsage sizelimit)))
                          (minRelayFee p))
         \<and> (rollingMinimumFeeRate p \<noteq> 0 \<and> \<not> time > lastRollingFeeUpdate p + 10
              \<longrightarrow> r = max_CFeeRate (CFeeRate (double_to_CAmount (rollingMinimumFeeRate p))) (minRelayFee p))
         \<and> (0 < GetFeePerK (minRelayFee p) \<longrightarrow>
              (GetFeePerK r = 0 \<longleftrightarrow>
                 rollingMinimumFeeRate p = 0
                 \<or> time > lastRollingFeeUpdate p + 10
                   \<and> decayed_rate ROLLING_FEE_HALFLIFE p time DynamicMemoryUsage sizelimit
                       < real_of_int (GetFeePerK (minRelayFee p) sdiv 2)))
         \<and> (0 < GetFeePerK (minRelayFee p) \<and> GetFeePerK r = 0 \<and> rollingMinimumFeeRate p \<noteq> 0 \<longrightarrow>
              decayed_rate ROLLING_FEE_HALFLIFE p time DynamicMemoryUsage sizelimit
                < real_of_int (GetFeePerK (minRelayFee p)) / 2)"
proof -
  let ?d = "decayed_rate ROLLING_FEE_HALFLIFE p time DynamicMemoryUsage sizelimit"
  let ?half = "real_of_int (GetFeePerK (minRelayFee p) sdiv 2)"
  have A: "GetFeePerK r = 0 \<and> rollingMinimumFeeRate p' = 0 \<or> GetFeePerK (minRelayFee p) \<le> GetFeePerK r"
    using assms
    by (auto simp: GetMinFee_def Let_def double_to_CAmount_def max_CFeeRate_ge split: if_splits)
  have B: "\<not> time > lastRollingFeeUpdate p + 10 \<longrightarrow> p' = p"
    using assms by (auto simp: GetMinFee_def Let_def split: if_splits)
  have C: "rollingMinimumFeeRate p = 0 \<longrightarrow> p' = p"
    using assms by (auto simp: GetMinFee_def Let_def split: if_splits)
  have D: "rollingMinimumFeeRate p \<noteq> 0 \<and> time > lastRollingFeeUpdate p + 10 \<longrightarrow> lastRollingFeeUpdate p' = time"
    using assms by (auto simp: GetMinFee_def Let_def split: if_splits)
  have E: "rollingMinimumFeeRate p \<noteq> 0 \<and> time > lastRollingFeeUpdate p + 10 \<and> ?d < ?half
             \<longrightarrow> r = CFeeRate 0 \<and> rollingMinimumFeeRate p' = 0"
    using assms by (auto simp: GetMinFee_def decayed_rate_def Let_def split: if_splits)
  have F: "rollingMinimumFeeRate p \<noteq> 0 \<and> time > lastRollingFeeUpdate p + 10 \<and> \<not> ?d < ?half
             \<longrightarrow> rollingMinimumFeeRate p' = ?d
                 \<and> r = max_CFeeRate (CFeeRate (double_to_CAmount ?d)) (minRelayFee p)"
    using assms by (auto simp: GetMinFee_def decayed_rate_def Let_def split: if_splits)
  have G: "rollingMinimumFeeRate p \<noteq> 0 \<and> \<not> time > lastRollingFeeUpdate p + 10
             \<longrightarrow> r = max_CFeeRate (CFeeRate (double_to_CAmount (rollingMinimumFeeRate p))) (minRelayFee p)"
    using assms by (auto simp: GetMinFee_def Let_def split: if_splits)
  have Z: "rollingMinimumFeeRate p = 0 \<longrightarrow> GetFeePerK r = 0"
    using assms by (auto simp: GetMinFee_def double_to_CAmount_def)
  have pos: "GetFeePerK (max_CFeeRate a (minRelayFee p)) \<noteq> 0" if "0 < GetFeePerK (minRelayFee p)" for a
    using that max_CFeeRate_ge [of "minRelayFee p" a] by simp
  have H: "0 < GetFeePerK (minRelayFee p) \<longrightarrow>
             (GetFeePerK r = 0 \<longleftrightarrow>
                rollingMinimumFeeRate p = 0 \<or> time > lastRollingFeeUpdate p + 10 \<and> ?d < ?half)"
  proof
    assume m: "0 < GetFeePerK (minRelayFee p)"
    show "GetFeePerK r = 0 \<longleftrightarrow> rollingMinimumFeeRate p = 0 \<or> time > lastRollingFeeUpdate p + 10 \<and> ?d < ?half"
    proof (cases "rollingMinimumFeeRate p = 0")
      case True
      with Z show ?thesis by simp
    next
      case nz: False
      show ?thesis
      proof (cases "time > lastRollingFeeUpdate p + 10")
        case False
        with nz G pos [OF m] show ?thesis by simp
      next
        case t: True
        show ?thesis
        proof (cases "?d < ?half")
          case True
          with nz t E show ?thesis by simp
        next
          case False
          with nz t F pos [OF m] show ?thesis by simp
        qed
      qed
    qed
  qed
  have I: "0 < GetFeePerK (minRelayFee p) \<and> GetFeePerK r = 0 \<and> rollingMinimumFeeRate p \<noteq> 0 \<longrightarrow>
             ?d < real_of_int (GetFeePerK (minRelayFee p)) / 2"
  proof
    assume a: "0 < GetFeePerK (minRelayFee p) \<and> GetFeePerK r = 0 \<and> rollingMinimumFeeRate p \<noteq> 0"
    with H have "?d < ?half"
      by simp
    moreover from a have "?half \<le> real_of_int (GetFeePerK (minRelayFee p)) / 2"
      by (intro sdiv_2_le_half) simp
    ultimately show "?d < real_of_int (GetFeePerK (minRelayFee p)) / 2"
      by simp
  qed
  from A have N: "\<not> (GetFeePerK r \<noteq> 0 \<and> GetFeePerK r < GetFeePerK (minRelayFee p))"
    by auto
  from A N B C D E F G H I show ?thesis
    by - (intro conjI; assumption)
qed

theorem GetMinFee_floor_witness:
  "GetMinFee 80 ((CTxMemPool_init (CFeeRate 1000))\<lparr>rollingMinimumFeeRate := 4000, lastRollingFeeUpdate := 100\<rparr>) 120 10 100
     = (CFeeRate 2000, (CTxMemPool_init (CFeeRate 1000))\<lparr>rollingMinimumFeeRate := 2000, lastRollingFeeUpdate := 120\<rparr>)
   \<and> GetMinFee 80 ((CTxMemPool_init (CFeeRate 1000))\<lparr>rollingMinimumFeeRate := 4000, lastRollingFeeUpdate := 100\<rparr>) 110 10 100
     = (CFeeRate 4000, (CTxMemPool_init (CFeeRate 1000))\<lparr>rollingMinimumFeeRate := 4000, lastRollingFeeUpdate := 100\<rparr>)
   \<and> GetMinFee 40 ((CTxMemPool_init (CFeeRate 1000))\<lparr>rollingMinimumFeeRate := 900, lastRollingFeeUpdate := 100\<rparr>) 120 10 100
     = (CFeeRate 0, (CTxMemPool_init (CFeeRate 1000))\<lparr>rollingMinimumFeeRate := 0, lastRollingFeeUpdate := 120\<rparr>)
   \<and> GetMinFee 80 ((CTxMemPool_init (CFeeRate 1000))\<lparr>rollingMinimumFeeRate := 1400, lastRollingFeeUpdate := 100\<rparr>) 120 10 100
     = (CFeeRate 1000, (CTxMemPool_init (CFeeRate 1000))\<lparr>rollingMinimumFeeRate := 700, lastRollingFeeUpdate := 120\<rparr>)
   \<and> decayed_rate 80 ((CTxMemPool_init (CFeeRate 1000))\<lparr>rollingMinimumFeeRate := 1400, lastRollingFeeUpdate := 100\<rparr>) 120 10 100 = 700
   \<and> decayed_rate 40 ((CTxMemPool_init (CFeeRate 1000))\<lparr>rollingMinimumFeeRate := 900, lastRollingFeeUpdate := 100\<rparr>) 120 10 100 = 225
   \<and> (1000 :: int) \<le> 2000"
proof -
  let ?p = "(CTxMemPool_init (CFeeRate 1000))\<lparr>rollingMinimumFeeRate := 4000, lastRollingFeeUpdate := 100\<rparr>"
  let ?q = "(CTxMemPool_init (CFeeRate 1000))\<lparr>rollingMinimumFeeRate := 900, lastRollingFeeUpdate := 100\<rparr>"
  let ?s = "(CTxMemPool_init (CFeeRate 1000))\<lparr>rollingMinimumFeeRate := 1400, lastRollingFeeUpdate := 100\<rparr>"
  note defs = GetMinFee_def CTxMemPool_init_def Let_def double_to_CAmount_def max_CFeeRate_def signed_divide_int_def
  have 1: "GetMinFee 80 ?p 120 10 100
     = (CFeeRate 2000, (CTxMemPool_init (CFeeRate 1000))\<lparr>rollingMinimumFeeRate := 2000, lastRollingFeeUpdate := 120\<rparr>)"
    by (simp add: defs)
  have 2: "GetMinFee 80 ?p 110 10 100 = (CFeeRate 4000, ?p)"
    by (simp add: defs)
  have 3: "GetMinFee 40 ?q 120 10 100
     = (CFeeRate 0, (CTxMemPool_init (CFeeRate 1000))\<lparr>rollingMinimumFeeRate := 0, lastRollingFeeUpdate := 120\<rparr>)"
    by (simp add: defs)
  have ds: "decayed_rate 80 ?s 120 10 100 = 700"
    by (simp add: decayed_rate_def CTxMemPool_init_def)
  have dq: "decayed_rate 40 ?q 120 10 100 = 225"
    by (simp add: decayed_rate_def CTxMemPool_init_def)
  obtain r4 s4 where 4: "GetMinFee 80 ?s 120 10 100 = (r4, s4)"
    by (cases "GetMinFee 80 ?s 120 10 100")
  have hm: "GetFeePerK (minRelayFee ?s) sdiv 2 = 500" "GetFeePerK (minRelayFee ?q) sdiv 2 = 500"
    by (simp_all add: CTxMemPool_init_def signed_divide_int_def)
  have hs: "rollingMinimumFeeRate ?s \<noteq> 0 \<and> 120 > lastRollingFeeUpdate ?s + 10
              \<and> \<not> decayed_rate 80 ?s 120 10 100 < real_of_int (GetFeePerK (minRelayFee ?s) sdiv 2)"
    unfolding ds hm by simp
  from GetMinFee_floor [OF 4] hs
  have "rollingMinimumFeeRate s4 = decayed_rate 80 ?s 120 10 100
          \<and> r4 = max_CFeeRate (CFeeRate (double_to_CAmount (decayed_rate 80 ?s 120 10 100))) (minRelayFee ?s)"
    by blast
  then have r4: "r4 = CFeeRate 1000"
    unfolding ds by (simp add: double_to_CAmount_def max_CFeeRate_def CTxMemPool_init_def)
  have "GetMinFee 80 ?s 120 10 100
     = (CFeeRate 1000, (CTxMemPool_init (CFeeRate 1000))\<lparr>rollingMinimumFeeRate := 700, lastRollingFeeUpdate := 120\<rparr>)"
    by (simp add: defs)
  with 4 r4 have 5: "GetMinFee 80 ?s 120 10 100
     = (CFeeRate 1000, (CTxMemPool_init (CFeeRate 1000))\<lparr>rollingMinimumFeeRate := 700, lastRollingFeeUpdate := 120\<rparr>)"
    by simp
  have hq: "rollingMinimumFeeRate ?q \<noteq> 0 \<and> 120 > lastRollingFeeUpdate ?q + 10
              \<and> decayed_rate 40 ?q 120 10 100 < real_of_int (GetFeePerK (minRelayFee ?q) sdiv 2)"
    unfolding dq hm by simp
  from GetMinFee_floor [OF 3] hq
  have "CFeeRate 0 = CFeeRate 0
          \<and> rollingMinimumFeeRate ((CTxMemPool_init (CFeeRate 1000))\<lparr>rollingMinimumFeeRate := 0, lastRollingFeeUpdate := 120\<rparr>) = 0"
    by blast
  have hz: "0 < GetFeePerK (minRelayFee ?q) \<and> GetFeePerK (CFeeRate 0) = 0 \<and> rollingMinimumFeeRate ?q \<noteq> 0"
    by (simp add: CTxMemPool_init_def)
  from GetMinFee_floor [OF 3] hz
  have "decayed_rate 40 ?q 120 10 100 < real_of_int (GetFeePerK (minRelayFee ?q)) / 2"
    by blast
  from GetMinFee_floor [OF 1]
  have "GetFeePerK (CFeeRate 2000) = 0
          \<and> rollingMinimumFeeRate ((CTxMemPool_init (CFeeRate 1000))\<lparr>rollingMinimumFeeRate := 2000, lastRollingFeeUpdate := 120\<rparr>) = 0
        \<or> GetFeePerK (minRelayFee ?p) \<le> GetFeePerK (CFeeRate 2000)"
    by (rule conjunct1)
  then have 6: "(1000 :: int) \<le> 2000"
    by (simp add: CTxMemPool_init_def)
  from 1 2 3 5 ds dq 6 show ?thesis
    by - (intro conjI; assumption)
qed

section \<open>The pool invariant and the removal operations\<close>

lemma pool_invD_hash: "pool_inv p \<Longrightarrow> fmlookup (mapTx p) h = Some e \<Longrightarrow> hash (tx e) = h"
  by (auto simp: pool_inv_def fmpred_iff)

lemma pool_invD_indexed:
  "pool_inv p \<Longrightarrow> fmlookup (mapTx p) h = Some e \<Longrightarrow> i < length (vin (tx e)) \<Longrightarrow>
     fmlookup (mapNextTx p) (prevout (vin (tx e) ! i)) = Some (CInPoint h i)"
  by (auto simp: pool_inv_def fmpred_iff)

lemma pool_invD_owner:
  "pool_inv p \<Longrightarrow> fmlookup (mapNextTx p) out = Some ip \<Longrightarrow>
     \<exists>e. fmlookup (mapTx p) (ptx ip) = Some e \<and> inpoint_n ip < length (vin (tx e))
         \<and> prevout (vin (tx e) ! inpoint_n ip) = out"
  by (fastforce simp: pool_inv_def fmpred_iff split: option.splits)

lemma pool_invI:
  assumes "\<And>h e. fmlookup (mapTx p) h = Some e \<Longrightarrow> hash (tx e) = h"
    and "\<And>h e i. fmlookup (mapTx p) h = Some e \<Longrightarrow> i < length (vin (tx e)) \<Longrightarrow>
           fmlookup (mapNextTx p) (prevout (vin (tx e) ! i)) = Some (CInPoint h i)"
    and "\<And>out ip. fmlookup (mapNextTx p) out = Some ip \<Longrightarrow>
           \<exists>e. fmlookup (mapTx p) (ptx ip) = Some e \<and> inpoint_n ip < length (vin (tx e))
               \<and> prevout (vin (tx e) ! inpoint_n ip) = out"
  shows "pool_inv p"
proof -
  have a: "\<forall>h e. fmlookup (mapTx p) h = Some e \<longrightarrow>
            hash (tx e) = h
            \<and> (\<forall>i < length (vin (tx e)).
                   fmlookup (mapNextTx p) (prevout (vin (tx e) ! i)) = Some (CInPoint h i))"
    using assms(1,2) by blast
  have b: "\<forall>out ip. fmlookup (mapNextTx p) out = Some ip \<longrightarrow>
            (case fmlookup (mapTx p) (ptx ip) of
               None \<Rightarrow> False
             | Some e \<Rightarrow> inpoint_n ip < length (vin (tx e)) \<and> prevout (vin (tx e) ! inpoint_n ip) = out)"
  proof (intro allI impI)
    fix out ip
    assume "fmlookup (mapNextTx p) out = Some ip"
    from assms(3) [OF this] obtain e where "fmlookup (mapTx p) (ptx ip) = Some e"
      and "inpoint_n ip < length (vin (tx e))" and "prevout (vin (tx e) ! inpoint_n ip) = out"
      by blast
    then show "case fmlookup (mapTx p) (ptx ip) of
               None \<Rightarrow> False
             | Some e \<Rightarrow> inpoint_n ip < length (vin (tx e)) \<and> prevout (vin (tx e) ! inpoint_n ip) = out"
      by simp
  qed
  show ?thesis
    unfolding pool_inv_def fmpred_iff using a b by blast
qed

lemma pool_inv_init: "pool_inv (CTxMemPool_init relayFee)"
  by (simp add: pool_inv_def CTxMemPool_init_def)

lemma pool_inv_frame:
  "mapTx q = mapTx p \<Longrightarrow> mapNextTx q = mapNextTx p \<Longrightarrow> pool_inv q = pool_inv p"
  by (simp add: pool_inv_def)

lemma prevout_nth_mem: "i < length ins \<Longrightarrow> prevout (ins ! i) \<in> prevout ` set ins"
  by simp

lemma index_inputs_other:
  "out \<notin> prevout ` set ins \<Longrightarrow> fmlookup (index_inputs h ins i0 m) out = fmlookup m out"
  by (induction ins arbitrary: i0 m) auto

lemma index_inputs_at:
  "distinct (map prevout ins) \<Longrightarrow> k < length ins \<Longrightarrow>
     fmlookup (index_inputs h ins i0 m) (prevout (ins ! k)) = Some (CInPoint h (i0 + k))"
proof (induction ins arbitrary: i0 m k)
  case Nil
  then show ?case by simp
next
  case (Cons txin ins)
  show ?case
  proof (cases k)
    case 0
    with Cons.prems show ?thesis
      by (simp add: index_inputs_other)
  next
    case (Suc k')
    with Cons.prems Cons.IH [of k' "Suc i0"] show ?thesis
      by simp
  qed
qed

lemma erase_inputs_lookup:
  "fmlookup (erase_inputs ins m) out = (if out \<in> prevout ` set ins then None else fmlookup m out)"
  unfolding erase_inputs_def
  by (induction ins arbitrary: m) auto

lemma mapTx_addUnchecked [simp]: "mapTx (snd (addUnchecked p h e f)) = fmupd h e (mapTx p)"
  by (simp add: addUnchecked_def Let_def est_call_def)

lemma mapNextTx_addUnchecked [simp]:
  "mapNextTx (snd (addUnchecked p h e f)) = index_inputs h (vin (tx e)) 0 (mapNextTx p)"
  by (simp add: addUnchecked_def Let_def est_call_def)

lemma mapTx_erase_entry [simp]: "mapTx (erase_entry p h e) = fmdrop h (mapTx p)"
  by (simp add: erase_entry_def Let_def est_call_def)

lemma mapNextTx_erase_entry [simp]:
  "mapNextTx (erase_entry p h e) = erase_inputs (vin (tx e)) (mapNextTx p)"
  by (simp add: erase_entry_def Let_def est_call_def)

lemma no_input_conflict_index:
  assumes "pool_inv p" and "no_input_conflict p e" and "out \<in> set (prevouts (tx e))"
  shows "fmlookup (mapNextTx p) out = None"
proof (rule ccontr)
  assume "fmlookup (mapNextTx p) out \<noteq> None"
  then obtain ip where ip: "fmlookup (mapNextTx p) out = Some ip"
    by auto
  from pool_invD_owner [OF assms(1) ip] obtain e' where e': "fmlookup (mapTx p) (ptx ip) = Some e'"
    and n: "inpoint_n ip < length (vin (tx e'))" and o: "prevout (vin (tx e') ! inpoint_n ip) = out"
    by blast
  from n o have "out \<in> set (prevouts (tx e'))"
    by (auto simp: prevouts_def)
  moreover from assms(2) e' have "set (prevouts (tx e')) \<inter> set (prevouts (tx e)) = {}"
    by (auto simp: no_input_conflict_def fmpred_iff)
  ultimately show False
    using assms(3) by blast
qed

lemma pool_inv_addUnchecked:
  assumes inv: "pool_inv p" and adm: "admit_amended p h e"
  shows "pool_inv (snd (addUnchecked p h e f))"
proof -
  let ?p' = "snd (addUnchecked p h e f)"
  from adm have hh: "hash (tx e) = h" and nc: "no_input_conflict p e" and dist: "distinct (map prevout (vin (tx e)))"
    and same: "\<And>e'. fmlookup (mapTx p) h = Some e' \<Longrightarrow> tx e' = tx e"
    by (auto simp: admit_amended_def admit_stated_def admits_own_hash_def prevouts_def split: option.splits)
  have free: "\<And>out. out \<in> prevout ` set (vin (tx e)) \<Longrightarrow> fmlookup (mapNextTx p) out = None"
    using no_input_conflict_index [OF inv nc] by (simp add: prevouts_def)
  have old_not_new: "prevout (vin (tx e') ! i) \<notin> prevout ` set (vin (tx e))"
    if "fmlookup (mapTx p) h' = Some e'" "i < length (vin (tx e'))" for h' e' i
    using pool_invD_indexed [OF inv that] free by fastforce
  show ?thesis
  proof (rule pool_invI)
    fix h' e'
    assume "fmlookup (mapTx ?p') h' = Some e'"
    then show "hash (tx e') = h'"
      using hh pool_invD_hash [OF inv] by (auto split: if_splits)
  next
    fix h' e' i
    assume l: "fmlookup (mapTx ?p') h' = Some e'" and i: "i < length (vin (tx e'))"
    show "fmlookup (mapNextTx ?p') (prevout (vin (tx e') ! i)) = Some (CInPoint h' i)"
    proof (cases "h' = h")
      case True
      with l have "e' = e" by simp
      with True i index_inputs_at [OF dist, of i h 0] show ?thesis
        by simp
    next
      case False
      with l have l': "fmlookup (mapTx p) h' = Some e'" by simp
      from old_not_new [OF l' i] pool_invD_indexed [OF inv l' i] show ?thesis
        by (simp add: index_inputs_other)
    qed
  next
    fix out ip
    assume l: "fmlookup (mapNextTx ?p') out = Some ip"
    show "\<exists>e'. fmlookup (mapTx ?p') (ptx ip) = Some e' \<and> inpoint_n ip < length (vin (tx e'))
               \<and> prevout (vin (tx e') ! inpoint_n ip) = out"
    proof (cases "out \<in> prevout ` set (vin (tx e))")
      case True
      then obtain k where k: "k < length (vin (tx e))" and out: "out = prevout (vin (tx e) ! k)"
        by (auto simp: in_set_conv_nth)
      from l index_inputs_at [OF dist k, of h 0] out have "ip = CInPoint h k"
        by simp
      with k out show ?thesis by simp
    next
      case False
      with l have l': "fmlookup (mapNextTx p) out = Some ip"
        by (simp add: index_inputs_other)
      from pool_invD_owner [OF inv l'] obtain e' where e': "fmlookup (mapTx p) (ptx ip) = Some e'"
        and n: "inpoint_n ip < length (vin (tx e'))" and o: "prevout (vin (tx e') ! inpoint_n ip) = out"
        by blast
      show ?thesis
      proof (cases "ptx ip = h")
        case True
        with e' same have "tx e' = tx e" by simp
        with n o prevout_nth_mem [of "inpoint_n ip" "vin (tx e)"] \<open>out \<notin> prevout ` set (vin (tx e))\<close>
        show ?thesis by simp
      next
        case False
        with e' n o show ?thesis by simp
      qed
    qed
  qed
qed

lemma pool_inv_erase_entry:
  assumes inv: "pool_inv p" and res: "fmlookup (mapTx p) h = Some e"
  shows "pool_inv (erase_entry p h e)"
proof (rule pool_invI)
  fix h' e'
  assume "fmlookup (mapTx (erase_entry p h e)) h' = Some e'"
  then show "hash (tx e') = h'"
    using pool_invD_hash [OF inv] by (auto split: if_splits)
next
  fix h' e' i
  assume l: "fmlookup (mapTx (erase_entry p h e)) h' = Some e'" and i: "i < length (vin (tx e'))"
  then have ne: "h' \<noteq> h" and l': "fmlookup (mapTx p) h' = Some e'"
    by (auto split: if_splits)
  have "prevout (vin (tx e') ! i) \<notin> prevout ` set (vin (tx e))"
  proof
    assume "prevout (vin (tx e') ! i) \<in> prevout ` set (vin (tx e))"
    then obtain k where k: "k < length (vin (tx e))" and eq: "prevout (vin (tx e') ! i) = prevout (vin (tx e) ! k)"
      by (auto simp: in_set_conv_nth)
    from pool_invD_indexed [OF inv res k] pool_invD_indexed [OF inv l' i] eq ne show False
      by simp
  qed
  with pool_invD_indexed [OF inv l' i]
  show "fmlookup (mapNextTx (erase_entry p h e)) (prevout (vin (tx e') ! i)) = Some (CInPoint h' i)"
    by (simp add: erase_inputs_lookup)
next
  fix out ip
  assume "fmlookup (mapNextTx (erase_entry p h e)) out = Some ip"
  then have no: "out \<notin> prevout ` set (vin (tx e))" and l': "fmlookup (mapNextTx p) out = Some ip"
    by (auto simp: erase_inputs_lookup split: if_splits)
  from pool_invD_owner [OF inv l'] obtain e' where e': "fmlookup (mapTx p) (ptx ip) = Some e'"
    and n: "inpoint_n ip < length (vin (tx e'))" and o: "prevout (vin (tx e') ! inpoint_n ip) = out"
    by blast
  have "ptx ip \<noteq> h"
  proof
    assume "ptx ip = h"
    with e' res have "e' = e" by simp
    with n o no prevout_nth_mem [of "inpoint_n ip" "vin (tx e)"] show False by simp
  qed
  with e' n o
  show "\<exists>e'. fmlookup (mapTx (erase_entry p h e)) (ptx ip) = Some e' \<and> inpoint_n ip < length (vin (tx e'))
               \<and> prevout (vin (tx e') ! inpoint_n ip) = out"
    by simp
qed


lemma shrinks_refl: "shrinks p p"
  unfolding shrinks_def by (auto intro: exI [of _ "[]"])

lemma shrinks_trans:
  assumes "shrinks p q" and "shrinks q r"
  shows "shrinks p r"
proof -
  from assms(1) obtain hs1 where 1: "calls (minerPolicyEstimator q) = calls (minerPolicyEstimator p) @ map RemoveTx hs1"
    unfolding shrinks_def by blast
  from assms(2) obtain hs2 where 2: "calls (minerPolicyEstimator r) = calls (minerPolicyEstimator q) @ map RemoveTx hs2"
    unfolding shrinks_def by blast
  from 1 2 have "calls (minerPolicyEstimator r) = calls (minerPolicyEstimator p) @ map RemoveTx (hs1 @ hs2)"
    by simp
  then have "\<exists>hs. calls (minerPolicyEstimator r) = calls (minerPolicyEstimator p) @ map RemoveTx hs"
    by blast
  with assms show ?thesis
    unfolding shrinks_def by simp
qed

lemma shrinks_erase_entry: "shrinks p (erase_entry p h e)"
proof -
  have "calls (minerPolicyEstimator (erase_entry p h e)) = calls (minerPolicyEstimator p) @ map RemoveTx [h]"
    by (simp add: erase_entry_def Let_def est_call_def)
  then have "\<exists>hs. calls (minerPolicyEstimator (erase_entry p h e)) = calls (minerPolicyEstimator p) @ map RemoveTx hs"
    by blast
  moreover have "minRelayFee (erase_entry p h e) = minRelayFee p"
    "rollingMinimumFeeRate (erase_entry p h e) = rollingMinimumFeeRate p"
    "lastRollingFeeUpdate (erase_entry p h e) = lastRollingFeeUpdate p"
    "history (minerPolicyEstimator (erase_entry p h e)) = history (minerPolicyEstimator p)"
    by (simp_all add: erase_entry_def Let_def est_call_def)
  ultimately show ?thesis
    unfolding shrinks_def by (auto simp: erase_inputs_lookup split: if_splits)
qed

lemma mapDeltas_erase_entry [simp]: "mapDeltas (erase_entry p h e) = mapDeltas p"
  by (simp add: erase_entry_def Let_def est_call_def)

lemma shrinks_mapTx_None: "shrinks p p' \<Longrightarrow> fmlookup (mapTx p) h = None \<Longrightarrow> fmlookup (mapTx p') h = None"
  unfolding shrinks_def by (cases "fmlookup (mapTx p') h") auto

lemma shrinks_mapNextTx_None:
  "shrinks p p' \<Longrightarrow> fmlookup (mapNextTx p) out = None \<Longrightarrow> fmlookup (mapNextTx p') out = None"
  unfolding shrinks_def by (cases "fmlookup (mapNextTx p') out") auto

lemma shrinks_mapTx_Some: "shrinks p p' \<Longrightarrow> fmlookup (mapTx p') h = Some e \<Longrightarrow> fmlookup (mapTx p) h = Some e"
  unfolding shrinks_def by simp

lemma shrinks_mapNextTx_Some:
  "shrinks p p' \<Longrightarrow> fmlookup (mapNextTx p') out = Some ip \<Longrightarrow> fmlookup (mapNextTx p) out = Some ip"
  unfolding shrinks_def by simp

lemma push_spenders_Some:
  assumes "pool_inv p"
  shows "\<exists>cs. push_spenders p h idxs q = Some (q @ cs)
           \<and> set cs = {b. \<exists>i \<in> set idxs. \<exists>ip. fmlookup (mapNextTx p) (COutPoint h i) = Some ip \<and> ptx ip = b}"
proof (induction idxs arbitrary: q)
  case Nil
  show ?case by simp
next
  case (Cons i idxs)
  show ?case
  proof (cases "fmlookup (mapNextTx p) (COutPoint h i)")
    case None
    from Cons.IH [of q] obtain cs where cs: "push_spenders p h idxs q = Some (q @ cs)"
      and s: "set cs = {b. \<exists>i \<in> set idxs. \<exists>ip. fmlookup (mapNextTx p) (COutPoint h i) = Some ip \<and> ptx ip = b}"
      by blast
    from None cs have "push_spenders p h (i # idxs) q = Some (q @ cs)"
      by simp
    moreover from None s
    have "set cs = {b. \<exists>j \<in> set (i # idxs). \<exists>ip. fmlookup (mapNextTx p) (COutPoint h j) = Some ip \<and> ptx ip = b}"
      by auto
    ultimately show ?thesis by blast
  next
    case (Some ip)
    from pool_invD_owner [OF assms Some] obtain e where e: "fmlookup (mapTx p) (ptx ip) = Some e"
      by blast
    from pool_invD_hash [OF assms e] have hh: "hash (tx e) = ptx ip" .
    from Cons.IH [of "q @ [ptx ip]"] obtain cs where cs: "push_spenders p h idxs (q @ [ptx ip]) = Some ((q @ [ptx ip]) @ cs)"
      and s: "set cs = {b. \<exists>i \<in> set idxs. \<exists>ip. fmlookup (mapNextTx p) (COutPoint h i) = Some ip \<and> ptx ip = b}"
      by blast
    from Some e hh cs have "push_spenders p h (i # idxs) q = Some (q @ (ptx ip # cs))"
      by simp
    moreover from Some s
    have "set (ptx ip # cs) = {b. \<exists>j \<in> set (i # idxs). \<exists>ip. fmlookup (mapNextTx p) (COutPoint h j) = Some ip \<and> ptx ip = b}"
      by auto
    ultimately show ?thesis by blast
  qed
qed

lemma remove_loop_props:
  "pool_inv p \<Longrightarrow>
     \<exists>p' removed'. remove_loop fRecursive p q removed = Some (p', removed')
        \<and> pool_inv p' \<and> shrinks p p' \<and> mapDeltas p' = mapDeltas p
        \<and> (\<forall>h \<in> set q. fmlookup (mapTx p') h = None)"
proof (induction fRecursive p q removed rule: remove_loop.induct)
  case (1 fRecursive p removed)
  then show ?case by (simp add: shrinks_refl)
next
  case (2 fRecursive p h txToRemove removed)
  show ?case
  proof (cases "fmlookup (mapTx p) h")
    case None
    from "2.IH"(1) [OF None "2.prems"] obtain p' removed' where
      r: "remove_loop fRecursive p txToRemove removed = Some (p', removed')" and i: "pool_inv p'"
      and s: "shrinks p p'" and d: "mapDeltas p' = mapDeltas p"
      and g: "\<forall>h \<in> set txToRemove. fmlookup (mapTx p') h = None"
      by blast
    from None r have "remove_loop fRecursive p (h # txToRemove) removed = Some (p', removed')"
      by simp
    moreover from shrinks_mapTx_None [OF s None] g have "\<forall>h' \<in> set (h # txToRemove). fmlookup (mapTx p') h' = None"
      by simp
    ultimately show ?thesis
      using i s d by blast
  next
    case (Some e)
    from push_spenders_Some [OF "2.prems", of h "[0..<length (vout (tx e))]" txToRemove]
    obtain cs where cs: "push_spenders p h [0..<length (vout (tx e))] txToRemove = Some (txToRemove @ cs)"
      by blast
    define q where "q = (if fRecursive then txToRemove @ cs else txToRemove)"
    have q: "(if fRecursive then push_spenders p h [0..<length (vout (tx e))] txToRemove else Some txToRemove) = Some q"
      by (simp add: q_def cs)
    have sub: "set txToRemove \<subseteq> set q"
      by (auto simp: q_def)
    from "2.IH"(2) [OF Some q pool_inv_erase_entry [OF "2.prems" Some]] obtain p' removed' where
      r: "remove_loop fRecursive (erase_entry p h e) q (removed @ [tx e]) = Some (p', removed')" and i: "pool_inv p'"
      and s: "shrinks (erase_entry p h e) p'" and d: "mapDeltas p' = mapDeltas (erase_entry p h e)"
      and g: "\<forall>h \<in> set q. fmlookup (mapTx p') h = None"
      by blast
    from Some q r have "remove_loop fRecursive p (h # txToRemove) removed = Some (p', removed')"
      by simp
    moreover have "fmlookup (mapTx p') h = None"
      by (rule shrinks_mapTx_None [OF s]) simp
    with g sub have "\<forall>h' \<in> set (h # txToRemove). fmlookup (mapTx p') h' = None"
      by auto
    moreover from shrinks_trans [OF shrinks_erase_entry s] have "shrinks p p'" .
    ultimately show ?thesis
      using i d by auto
  qed
qed

lemma remove_props:
  assumes "pool_inv p"
  shows "\<exists>p' removed'. remove p t removed fRecursive = Some (p', removed')
        \<and> pool_inv p' \<and> shrinks p p' \<and> mapDeltas p' = mapDeltas p
        \<and> fmlookup (mapTx p') (hash t) = None"
proof -
  from push_spenders_Some [OF assms, of "hash t" "[0..<length (vout t)]" "[hash t]"]
  obtain cs where cs: "push_spenders p (hash t) [0..<length (vout t)] [hash t] = Some ([hash t] @ cs)"
    by blast
  define q where "q = (if fRecursive \<and> fmlookup (mapTx p) (hash t) = None then [hash t] @ cs else [hash t])"
  have q: "(if fRecursive \<and> fmlookup (mapTx p) (hash t) = None
            then push_spenders p (hash t) [0..<length (vout t)] [hash t]
            else Some [hash t]) = Some q"
    by (simp add: q_def cs)
  have mem: "hash t \<in> set q"
    by (simp add: q_def)
  from remove_loop_props [OF assms, of fRecursive q removed] obtain p' removed' where
    "remove_loop fRecursive p q removed = Some (p', removed')" "pool_inv p'" "shrinks p p'"
    "mapDeltas p' = mapDeltas p" "\<forall>h \<in> set q. fmlookup (mapTx p') h = None"
    by blast
  with q mem show ?thesis
    unfolding remove_def by auto
qed

lemma removeConflicts_loop_props:
  "pool_inv p \<Longrightarrow>
     \<exists>p' removed'. removeConflicts_loop p t ins removed = Some (p', removed')
        \<and> pool_inv p' \<and> shrinks p p' \<and> mapDeltas p' = mapDeltas p
        \<and> (fmlookup (mapTx p) (hash t) = None \<longrightarrow>
             (\<forall>x \<in> set ins. fmlookup (mapNextTx p') (prevout x) = None))"
proof (induction ins arbitrary: p removed)
  case Nil
  then show ?case by (simp add: shrinks_refl)
next
  case (Cons txin ins)
  show ?case
  proof (cases "fmlookup (mapNextTx p) (prevout txin)")
    case None
    from Cons.IH [OF Cons.prems, of removed] obtain p' removed' where
      r: "removeConflicts_loop p t ins removed = Some (p', removed')" and i: "pool_inv p'"
      and s: "shrinks p p'" and d: "mapDeltas p' = mapDeltas p"
      and g: "fmlookup (mapTx p) (hash t) = None \<longrightarrow> (\<forall>x \<in> set ins. fmlookup (mapNextTx p') (prevout x) = None)"
      by (elim exE conjE)
    from None r have "removeConflicts_loop p t (txin # ins) removed = Some (p', removed')"
      by simp
    moreover from shrinks_mapNextTx_None [OF s None] g
    have "fmlookup (mapTx p) (hash t) = None \<longrightarrow> (\<forall>x \<in> set (txin # ins). fmlookup (mapNextTx p') (prevout x) = None)"
      by simp
    ultimately show ?thesis
      using i s d by simp
  next
    case (Some ip)
    from pool_invD_owner [OF Cons.prems Some] obtain e where e: "fmlookup (mapTx p) (ptx ip) = Some e"
      by blast
    from pool_invD_hash [OF Cons.prems e] have hh: "hash (tx e) = ptx ip" .
    show ?thesis
    proof (cases "hash (tx e) = hash t")
      case True
      from Cons.IH [OF Cons.prems, of removed] obtain p' removed' where
        r: "removeConflicts_loop p t ins removed = Some (p', removed')" and i: "pool_inv p'"
        and s: "shrinks p p'" and d: "mapDeltas p' = mapDeltas p"
        by (elim exE conjE)
      from Some e True r have "removeConflicts_loop p t (txin # ins) removed = Some (p', removed')"
        by (simp add: Let_def)
      moreover from True hh e have "fmlookup (mapTx p) (hash t) \<noteq> None"
        by simp
      ultimately show ?thesis
        using i s d by auto
    next
      case False
      from remove_props [OF Cons.prems, of "tx e" removed True] obtain p1 removed1 where
        r1: "remove p (tx e) removed True = Some (p1, removed1)" and i1: "pool_inv p1"
        and s1: "shrinks p p1" and d1: "mapDeltas p1 = mapDeltas p"
        and g1: "fmlookup (mapTx p1) (hash (tx e)) = None"
        by (elim exE conjE)
      from Cons.IH [OF i1, of removed1] obtain p' removed' where
        r: "removeConflicts_loop p1 t ins removed1 = Some (p', removed')" and i: "pool_inv p'"
        and s: "shrinks p1 p'" and d: "mapDeltas p' = mapDeltas p1"
        and g: "fmlookup (mapTx p1) (hash t) = None \<longrightarrow> (\<forall>x \<in> set ins. fmlookup (mapNextTx p') (prevout x) = None)"
        by (elim exE conjE)
      from Some e False r1 r have "removeConflicts_loop p t (txin # ins) removed = Some (p', removed')"
        by (simp add: Let_def)
      moreover have "fmlookup (mapNextTx p1) (prevout txin) = None"
      proof (rule ccontr)
        assume "fmlookup (mapNextTx p1) (prevout txin) \<noteq> None"
        then obtain ip' where ip': "fmlookup (mapNextTx p1) (prevout txin) = Some ip'"
          by auto
        with shrinks_mapNextTx_Some [OF s1 ip'] Some have "ip' = ip"
          by simp
        moreover from pool_invD_owner [OF i1 ip'] obtain e1 where "fmlookup (mapTx p1) (ptx ip') = Some e1"
          by (elim exE conjE)
        ultimately show False
          using g1 hh by simp
      qed
      then have "fmlookup (mapNextTx p') (prevout txin) = None"
        by (rule shrinks_mapNextTx_None [OF s])
      moreover from shrinks_mapTx_None [OF s1, of "hash t"] g
      have "fmlookup (mapTx p) (hash t) = None \<longrightarrow> (\<forall>x \<in> set ins. fmlookup (mapNextTx p') (prevout x) = None)"
        by simp
      moreover from shrinks_trans [OF s1 s] have "shrinks p p'" .
      ultimately show ?thesis
        using i d d1 by auto
    qed
  qed
qed

lemma removeConflicts_props:
  assumes "pool_inv p"
  shows "\<exists>p' removed'. removeConflicts p t removed = Some (p', removed')
        \<and> pool_inv p' \<and> shrinks p p' \<and> mapDeltas p' = mapDeltas p
        \<and> (fmlookup (mapTx p) (hash t) = None \<longrightarrow>
             (\<forall>x \<in> set (vin t). fmlookup (mapNextTx p') (prevout x) = None))"
  unfolding removeConflicts_def by (rule removeConflicts_loop_props [OF assms])

lemma ClearPrioritisation_frame:
  "pool_inv (ClearPrioritisation p h) = pool_inv p" "shrinks p (ClearPrioritisation p h)"
  "mapTx (ClearPrioritisation p h) = mapTx p" "mapNextTx (ClearPrioritisation p h) = mapNextTx p"
  "fmlookup (mapDeltas (ClearPrioritisation p h)) k = (if k = h then None else fmlookup (mapDeltas p) k)"
  by (auto simp: ClearPrioritisation_def pool_inv_def shrinks_def intro: exI [of _ "[]"])

lemma removeForBlock_loop_props:
  "pool_inv p \<Longrightarrow>
     \<exists>p' conflicts'. removeForBlock_loop p vtx conflicts = Some (p', conflicts')
        \<and> pool_inv p' \<and> shrinks p p'
        \<and> (\<forall>k. fmlookup (mapDeltas p') k = (if k \<in> hash ` set vtx then None else fmlookup (mapDeltas p) k))
        \<and> (\<forall>t \<in> set vtx. fmlookup (mapTx p') (hash t) = None
              \<and> (\<forall>x \<in> set (vin t). fmlookup (mapNextTx p') (prevout x) = None))"
proof (induction vtx arbitrary: p conflicts)
  case Nil
  then show ?case by (simp add: shrinks_refl)
next
  case (Cons t vtx)
  from remove_props [OF Cons.prems, of t "[]" False] obtain p1 dummy where
    r1: "remove p t [] False = Some (p1, dummy)" and i1: "pool_inv p1" and s1: "shrinks p p1"
    and d1: "mapDeltas p1 = mapDeltas p" and g1: "fmlookup (mapTx p1) (hash t) = None"
    by (elim exE conjE)
  from removeConflicts_props [OF i1, of t conflicts] g1 obtain p2 conflicts2 where
    r2: "removeConflicts p1 t conflicts = Some (p2, conflicts2)" and i2: "pool_inv p2" and s2: "shrinks p1 p2"
    and d2: "mapDeltas p2 = mapDeltas p1"
    and g2: "\<forall>x \<in> set (vin t). fmlookup (mapNextTx p2) (prevout x) = None"
    by (elim exE conjE) simp
  let ?p3 = "ClearPrioritisation p2 (hash t)"
  have i3: "pool_inv ?p3"
    using i2 by (simp add: ClearPrioritisation_frame)
  from Cons.IH [OF i3, of conflicts2] obtain p' conflicts' where
    r: "removeForBlock_loop ?p3 vtx conflicts2 = Some (p', conflicts')" and i: "pool_inv p'" and s: "shrinks ?p3 p'"
    and d: "\<forall>k. fmlookup (mapDeltas p') k = (if k \<in> hash ` set vtx then None else fmlookup (mapDeltas ?p3) k)"
    and g: "\<forall>t \<in> set vtx. fmlookup (mapTx p') (hash t) = None
              \<and> (\<forall>x \<in> set (vin t). fmlookup (mapNextTx p') (prevout x) = None)"
    by (elim exE conjE)
  from r1 r2 r have "removeForBlock_loop p (t # vtx) conflicts = Some (p', conflicts')"
    by simp
  moreover have "shrinks p p'"
    by (rule shrinks_trans [OF s1 shrinks_trans [OF s2 shrinks_trans [OF ClearPrioritisation_frame(2) s]]])
  moreover have "\<forall>k. fmlookup (mapDeltas p') k = (if k \<in> hash ` set (t # vtx) then None else fmlookup (mapDeltas p) k)"
    using d d1 d2 by (auto simp: ClearPrioritisation_frame)
  moreover have "fmlookup (mapTx p') (hash t) = None"
    by (rule shrinks_mapTx_None [OF shrinks_trans [OF s2 shrinks_trans [OF ClearPrioritisation_frame(2) s]] g1])
  moreover have "\<forall>x \<in> set (vin t). fmlookup (mapNextTx p') (prevout x) = None"
    using g2 shrinks_mapNextTx_None [OF shrinks_trans [OF ClearPrioritisation_frame(2) s]] by blast
  ultimately show ?case
    using i g by auto
qed

lemma spend_index_card:
  assumes "pool_inv p"
  shows "card (fmdom' (mapNextTx p)) = input_count p"
proof -
  define n where "n h = length (vin (tx (the (fmlookup (mapTx p) h))))" for h
  define S where "S = (SIGMA h : fmdom' (mapTx p). {..<n h})"
  define f where "f x = prevout (vin (tx (the (fmlookup (mapTx p) (fst x)))) ! snd x)" for x :: "uint256 \<times> nat"
  have look: "fmlookup (mapNextTx p) (f x) = Some (CInPoint (fst x) (snd x))" if "x \<in> S" for x
  proof -
    from that have d: "fst x \<in> fmdom' (mapTx p)" and l: "snd x < n (fst x)"
      unfolding S_def by auto
    from d obtain e where e: "fmlookup (mapTx p) (fst x) = Some e"
      by (auto simp: fmlookup_dom'_iff)
    with l have "snd x < length (vin (tx e))"
      by (simp add: n_def)
    from pool_invD_indexed [OF assms e this] e show ?thesis
      by (simp add: f_def)
  qed
  have inj: "inj_on f S"
  proof (rule inj_onI)
    fix x y
    assume "x \<in> S" "y \<in> S" "f x = f y"
    with look [of x] look [of y] have "CInPoint (fst x) (snd x) = CInPoint (fst y) (snd y)"
      by simp
    then show "x = y"
      by (simp add: prod_eq_iff)
  qed
  have img: "f ` S = fmdom' (mapNextTx p)"
  proof (rule set_eqI, rule iffI)
    fix out
    assume "out \<in> f ` S"
    then obtain x where "x \<in> S" "out = f x"
      by (rule imageE)
    with look [of x] show "out \<in> fmdom' (mapNextTx p)"
      by (simp add: fmlookup_dom'_iff)
  next
    fix out
    assume "out \<in> fmdom' (mapNextTx p)"
    then obtain ip where ip: "fmlookup (mapNextTx p) out = Some ip"
      by (auto simp: fmlookup_dom'_iff)
    from pool_invD_owner [OF assms ip] obtain e where e: "fmlookup (mapTx p) (ptx ip) = Some e"
      and l: "inpoint_n ip < length (vin (tx e))" and o: "prevout (vin (tx e) ! inpoint_n ip) = out"
      by (elim exE conjE)
    from e l have "(ptx ip, inpoint_n ip) \<in> S"
      by (simp add: S_def n_def fmlookup_dom'_iff)
    moreover from e o have "f (ptx ip, inpoint_n ip) = out"
      by (simp add: f_def)
    ultimately show "out \<in> f ` S"
      by (rule rev_image_eqI [OF _ sym])
  qed
  have "card (fmdom' (mapNextTx p)) = card (f ` S)"
    by (simp only: img)
  also have "\<dots> = card S"
    by (rule card_image [OF inj])
  also have "\<dots> = (\<Sum>h \<in> fmdom' (mapTx p). card {..<n h})"
    unfolding S_def by (rule card_SigmaI) simp_all
  also have "\<dots> = input_count p"
    by (simp add: input_count_def n_def)
  finally show ?thesis .
qed

lemma run_ops_inv:
  "pool_inv p \<Longrightarrow> caller_contract admit_amended p ops \<Longrightarrow> \<exists>p'. run_ops p ops = Some p' \<and> pool_inv p'"
proof (induction ops arbitrary: p)
  case Nil
  then show ?case by simp
next
  case (Cons op ops)
  show ?case
  proof (cases op)
    case (Admit h e f)
    with Cons.prems have a: "admit_amended p h e" and c: "caller_contract admit_amended (snd (addUnchecked p h e f)) ops"
      by simp_all
    from Cons.IH [OF pool_inv_addUnchecked [OF Cons.prems(1) a] c] Admit show ?thesis
      by simp
  next
    case (Remove t r)
    from remove_props [OF Cons.prems(1), of t "[]" r] obtain p1 removed1 where
      r1: "remove p t [] r = Some (p1, removed1)" and i1: "pool_inv p1"
      by (elim exE conjE)
    from Cons.prems(2) Remove r1 have "caller_contract admit_amended p1 ops"
      by simp
    from Cons.IH [OF i1 this] Remove r1 show ?thesis
      by simp
  qed
qed

lemma collect_entries_eq:
  "collect_entries p vtx
     = map (\<lambda>t. the (fmlookup (mapTx p) (hash t))) (filter (\<lambda>t. fmlookup (mapTx p) (hash t) \<noteq> None) vtx)"
  by (induction vtx) (auto split: option.splits)

lemma spends_output_of_index:
  assumes "pool_inv p"
  shows "(a, b) \<in> spends_output_of p \<longleftrightarrow>
     (\<exists>ea i ip. fmlookup (mapTx p) a = Some ea \<and> i < length (vout (tx ea))
        \<and> fmlookup (mapNextTx p) (COutPoint a i) = Some ip \<and> ptx ip = b)"
proof
  assume "(a, b) \<in> spends_output_of p"
  then obtain ea eb i where ea: "fmlookup (mapTx p) a = Some ea" and eb: "fmlookup (mapTx p) b = Some eb"
    and i: "i < length (vout (tx ea))" and m: "COutPoint a i \<in> set (prevouts (tx eb))"
    unfolding spends_output_of_def by blast
  from m obtain k where k: "k < length (vin (tx eb))" and o: "prevout (vin (tx eb) ! k) = COutPoint a i"
    by (auto simp: prevouts_def in_set_conv_nth)
  from pool_invD_indexed [OF assms eb k] o have "fmlookup (mapNextTx p) (COutPoint a i) = Some (CInPoint b k)"
    by simp
  with ea i show "\<exists>ea i ip. fmlookup (mapTx p) a = Some ea \<and> i < length (vout (tx ea))
        \<and> fmlookup (mapNextTx p) (COutPoint a i) = Some ip \<and> ptx ip = b"
    by fastforce
next
  assume "\<exists>ea i ip. fmlookup (mapTx p) a = Some ea \<and> i < length (vout (tx ea))
        \<and> fmlookup (mapNextTx p) (COutPoint a i) = Some ip \<and> ptx ip = b"
  then obtain ea i ip where ea: "fmlookup (mapTx p) a = Some ea" and i: "i < length (vout (tx ea))"
    and ip: "fmlookup (mapNextTx p) (COutPoint a i) = Some ip" and b: "ptx ip = b"
    by blast
  from pool_invD_owner [OF assms ip] b obtain eb where eb: "fmlookup (mapTx p) b = Some eb"
    and n: "inpoint_n ip < length (vin (tx eb))" and o: "prevout (vin (tx eb) ! inpoint_n ip) = COutPoint a i"
    by auto
  from n o have "COutPoint a i \<in> set (prevouts (tx eb))"
    unfolding prevouts_def by (metis nth_map length_map nth_mem)
  with ea eb i show "(a, b) \<in> spends_output_of p"
    unfolding spends_output_of_def by blast
qed

lemma pushed_resident:
  assumes "pool_inv p" and "fmlookup (mapTx p) h = Some e"
  shows "{b. \<exists>i \<in> set [0..<length (vout (tx e))]. \<exists>ip. fmlookup (mapNextTx p) (COutPoint h i) = Some ip \<and> ptx ip = b}
           = spends_output_of p `` {h}"
proof (intro set_eqI iffI)
  fix b
  assume "b \<in> {b. \<exists>i \<in> set [0..<length (vout (tx e))]. \<exists>ip. fmlookup (mapNextTx p) (COutPoint h i) = Some ip \<and> ptx ip = b}"
  then obtain i ip where "i < length (vout (tx e))" "fmlookup (mapNextTx p) (COutPoint h i) = Some ip" "ptx ip = b"
    by auto
  with assms(2) have "(h, b) \<in> spends_output_of p"
    unfolding spends_output_of_index [OF assms(1)] by blast
  then show "b \<in> spends_output_of p `` {h}"
    by simp
next
  fix b
  assume "b \<in> spends_output_of p `` {h}"
  then have "(h, b) \<in> spends_output_of p"
    by simp
  then obtain ea i ip where "fmlookup (mapTx p) h = Some ea" "i < length (vout (tx ea))"
    "fmlookup (mapNextTx p) (COutPoint h i) = Some ip" "ptx ip = b"
    unfolding spends_output_of_index [OF assms(1)] by blast
  with assms(2) have "i \<in> set [0..<length (vout (tx e))]" "fmlookup (mapNextTx p) (COutPoint h i) = Some ip" "ptx ip = b"
    by simp_all
  then show "b \<in> {b. \<exists>i \<in> set [0..<length (vout (tx e))]. \<exists>ip. fmlookup (mapNextTx p) (COutPoint h i) = Some ip \<and> ptx ip = b}"
    by blast
qed

lemma pushed_absent:
  assumes "pool_inv p"
  shows "{b. \<exists>i \<in> set [0..<length (vout t)]. \<exists>ip. fmlookup (mapNextTx p) (COutPoint (hash t) i) = Some ip \<and> ptx ip = b}
           = spenders_of p t"
proof (intro set_eqI iffI)
  fix b
  assume "b \<in> {b. \<exists>i \<in> set [0..<length (vout t)]. \<exists>ip. fmlookup (mapNextTx p) (COutPoint (hash t) i) = Some ip \<and> ptx ip = b}"
  then obtain i ip where i: "i < length (vout t)" and ip: "fmlookup (mapNextTx p) (COutPoint (hash t) i) = Some ip"
    and b: "ptx ip = b"
    by auto
  from pool_invD_owner [OF assms ip] b obtain eb where eb: "fmlookup (mapTx p) b = Some eb"
    and n: "inpoint_n ip < length (vin (tx eb))" and o: "prevout (vin (tx eb) ! inpoint_n ip) = COutPoint (hash t) i"
    by auto
  from n o have "COutPoint (hash t) i \<in> set (prevouts (tx eb))"
    unfolding prevouts_def by (metis nth_map length_map nth_mem)
  with eb i show "b \<in> spenders_of p t"
    unfolding spenders_of_def by blast
next
  fix b
  assume "b \<in> spenders_of p t"
  then obtain eb i where eb: "fmlookup (mapTx p) b = Some eb" and i: "i < length (vout t)"
    and m: "COutPoint (hash t) i \<in> set (prevouts (tx eb))"
    unfolding spenders_of_def by blast
  from m obtain k where k: "k < length (vin (tx eb))" and o: "prevout (vin (tx eb) ! k) = COutPoint (hash t) i"
    by (auto simp: prevouts_def in_set_conv_nth)
  from pool_invD_indexed [OF assms eb k] o have "fmlookup (mapNextTx p) (COutPoint (hash t) i) = Some (CInPoint b k)"
    by simp
  with i show "b \<in> {b. \<exists>i \<in> set [0..<length (vout t)]. \<exists>ip. fmlookup (mapNextTx p) (COutPoint (hash t) i) = Some ip \<and> ptx ip = b}"
    by fastforce
qed

lemma spends_output_of_erase:
  "spends_output_of (erase_entry p h e) = {(a, b). (a, b) \<in> spends_output_of p \<and> a \<noteq> h \<and> b \<noteq> h}"
  unfolding spends_output_of_def by (auto split: if_splits)

lemma spends_output_of_resident:
  "(a, b) \<in> spends_output_of p \<Longrightarrow> a \<in> fmdom' (mapTx p) \<and> b \<in> fmdom' (mapTx p)"
  unfolding spends_output_of_def by (auto simp: fmlookup_dom'_iff)

lemma rtrancl_without_node:
  fixes R :: "('a \<times> 'a) set"
  shows "R\<^sup>* `` ({h} \<union> Q) = {h} \<union> {(a, b). (a, b) \<in> R \<and> a \<noteq> h \<and> b \<noteq> h}\<^sup>* `` (Q \<union> R `` {h})"
proof -
  define R1 where "R1 = {(a, b). (a, b) \<in> R \<and> a \<noteq> h \<and> b \<noteq> h}"
  have sub: "R1 \<subseteq> R"
    by (auto simp: R1_def)
  have 1: "x \<in> {h} \<union> R1\<^sup>* `` (Q \<union> R `` {h})" if "(s, x) \<in> R\<^sup>*" and "s \<in> {h} \<union> Q" for s x
    using that
  proof (induction rule: rtrancl_induct)
    case base
    then show ?case by auto
  next
    case (step y z)
    show ?case
    proof (cases "z = h")
      case True
      then show ?thesis by simp
    next
      case zh: False
      show ?thesis
      proof (cases "y = h")
        case True
        with step.hyps(2) have "z \<in> R `` {h}"
          by auto
        then show ?thesis by auto
      next
        case False
        with zh step.hyps(2) have "(y, z) \<in> R1"
          by (simp add: R1_def)
        moreover from False step.IH [OF step.prems] have "y \<in> R1\<^sup>* `` (Q \<union> R `` {h})"
          by simp
        ultimately have "z \<in> R1\<^sup>* `` (Q \<union> R `` {h})"
          by (auto intro: rtrancl_into_rtrancl)
        then show ?thesis by simp
      qed
    qed
  qed
  have 2: "x \<in> R\<^sup>* `` ({h} \<union> Q)" if "(s, x) \<in> R1\<^sup>*" and "s \<in> Q \<union> R `` {h}" for s x
  proof -
    from that(1) rtrancl_mono [OF sub] have sx: "(s, x) \<in> R\<^sup>*"
      by auto
    from that(2) show ?thesis
    proof
      assume "s \<in> Q"
      with sx show ?thesis by auto
    next
      assume "s \<in> R `` {h}"
      then have "(h, s) \<in> R\<^sup>*"
        by auto
      from this sx have "(h, x) \<in> R\<^sup>*"
        by (rule rtrancl_trans)
      then show ?thesis by auto
    qed
  qed
  have "R\<^sup>* `` ({h} \<union> Q) = {h} \<union> R1\<^sup>* `` (Q \<union> R `` {h})"
  proof (intro set_eqI iffI)
    fix x
    assume "x \<in> R\<^sup>* `` ({h} \<union> Q)"
    then obtain s where "(s, x) \<in> R\<^sup>*" "s \<in> {h} \<union> Q"
      by (rule ImageE)
    then show "x \<in> {h} \<union> R1\<^sup>* `` (Q \<union> R `` {h})"
      by (rule 1)
  next
    fix x
    assume "x \<in> {h} \<union> R1\<^sup>* `` (Q \<union> R `` {h})"
    then show "x \<in> R\<^sup>* `` ({h} \<union> Q)"
    proof
      assume "x \<in> {h}"
      then show ?thesis by auto
    next
      assume "x \<in> R1\<^sup>* `` (Q \<union> R `` {h})"
      then obtain s where "(s, x) \<in> R1\<^sup>*" "s \<in> Q \<union> R `` {h}"
        by (rule ImageE)
      then show ?thesis by (rule 2)
    qed
  qed
  then show ?thesis
    by (simp only: R1_def)
qed

lemma rtrancl_absent_node:
  assumes "fmlookup (mapTx p) h = None"
  shows "(spends_output_of p)\<^sup>* `` ({h} \<union> Q) = {h} \<union> (spends_output_of p)\<^sup>* `` Q"
proof -
  from assms have no: "\<And>a b. (a, b) \<in> spends_output_of p \<Longrightarrow> a \<noteq> h \<and> b \<noteq> h"
    unfolding spends_output_of_def by auto
  then have "{(a, b). (a, b) \<in> spends_output_of p \<and> a \<noteq> h \<and> b \<noteq> h} = spends_output_of p"
    by auto
  moreover from no have "spends_output_of p `` {h} = {}"
    by auto
  ultimately show ?thesis
    using rtrancl_without_node [of "spends_output_of p" h Q] by simp
qed

lemma remove_loop_exact:
  "fRecursive \<Longrightarrow> pool_inv p \<Longrightarrow>
     \<exists>p' removed'. remove_loop fRecursive p q removed = Some (p', removed')
        \<and> fmdom' (mapTx p') = fmdom' (mapTx p) - (spends_output_of p)\<^sup>* `` set q
        \<and> set removed' = set removed
             \<union> {tx e |e h. h \<in> (spends_output_of p)\<^sup>* `` set q \<and> fmlookup (mapTx p) h = Some e}"
proof (induction fRecursive p q removed rule: remove_loop.induct)
  case (1 fRecursive p removed)
  then show ?case by simp
next
  case (2 fRecursive p h txToRemove removed)
  let ?R = "spends_output_of p"
  show ?case
  proof (cases "fmlookup (mapTx p) h")
    case None
    from "2.IH"(1) [OF None "2.prems"] obtain p' removed' where
      r: "remove_loop fRecursive p txToRemove removed = Some (p', removed')"
      and d: "fmdom' (mapTx p') = fmdom' (mapTx p) - ?R\<^sup>* `` set txToRemove"
      and s: "set removed' = set removed \<union> {tx e |e h. h \<in> ?R\<^sup>* `` set txToRemove \<and> fmlookup (mapTx p) h = Some e}"
      by (elim exE conjE)
    have g: "?R\<^sup>* `` set (h # txToRemove) = {h} \<union> ?R\<^sup>* `` set txToRemove"
      using rtrancl_absent_node [OF None, of "set txToRemove"] by simp
    from None have nd: "h \<notin> fmdom' (mapTx p)"
      by (simp add: fmdom'_notI)
    from None r have "remove_loop fRecursive p (h # txToRemove) removed = Some (p', removed')"
      by simp
    moreover from d nd have "fmdom' (mapTx p') = fmdom' (mapTx p) - ?R\<^sup>* `` set (h # txToRemove)"
      unfolding g by auto
    moreover from s None
    have "set removed' = set removed \<union> {tx e |e h'. h' \<in> ?R\<^sup>* `` set (h # txToRemove) \<and> fmlookup (mapTx p) h' = Some e}"
      unfolding g by auto
    ultimately show ?thesis
      by simp
  next
    case (Some e)
    let ?p1 = "erase_entry p h e"
    let ?R1 = "spends_output_of ?p1"
    from push_spenders_Some [OF "2.prems"(2), of h "[0..<length (vout (tx e))]" txToRemove]
    obtain cs where cs: "push_spenders p h [0..<length (vout (tx e))] txToRemove = Some (txToRemove @ cs)"
      and scs: "set cs = {b. \<exists>i \<in> set [0..<length (vout (tx e))]. \<exists>ip.
                         fmlookup (mapNextTx p) (COutPoint h i) = Some ip \<and> ptx ip = b}"
      by (elim exE conjE)
    from scs have scs': "set cs = ?R `` {h}"
      by (simp only: pushed_resident [OF "2.prems"(2) Some])
    have q: "(if fRecursive then push_spenders p h [0..<length (vout (tx e))] txToRemove else Some txToRemove)
               = Some (txToRemove @ cs)"
      using "2.prems"(1) cs by simp
    from "2.IH"(2) [OF Some q "2.prems"(1) pool_inv_erase_entry [OF "2.prems"(2) Some]] obtain p' removed' where
      r: "remove_loop fRecursive ?p1 (txToRemove @ cs) (removed @ [tx e]) = Some (p', removed')"
      and d: "fmdom' (mapTx p') = fmdom' (mapTx ?p1) - ?R1\<^sup>* `` set (txToRemove @ cs)"
      and s: "set removed' = set (removed @ [tx e])
                \<union> {tx e' |e' h'. h' \<in> ?R1\<^sup>* `` set (txToRemove @ cs) \<and> fmlookup (mapTx ?p1) h' = Some e'}"
      by (elim exE conjE)
    have g: "?R\<^sup>* `` set (h # txToRemove) = {h} \<union> ?R1\<^sup>* `` set (txToRemove @ cs)"
      using rtrancl_without_node [of ?R h "set txToRemove"]
      by (simp add: spends_output_of_erase scs')
    from Some q r have "remove_loop fRecursive p (h # txToRemove) removed = Some (p', removed')"
      by simp
    moreover from d have "fmdom' (mapTx p') = fmdom' (mapTx p) - ?R\<^sup>* `` set (h # txToRemove)"
      unfolding g by auto
    moreover have "set removed' = set removed \<union> {tx e' |e' h'. h' \<in> ?R\<^sup>* `` set (h # txToRemove) \<and> fmlookup (mapTx p) h' = Some e'}"
    proof -
      define X where "X = ?R1\<^sup>* `` set (txToRemove @ cs)"
      have "{tx e' |e' h'. h' \<in> {h} \<union> X \<and> fmlookup (mapTx p) h' = Some e'}
              = {tx e} \<union> {tx e' |e' h'. h' \<in> X \<and> fmlookup (mapTx ?p1) h' = Some e'}"
      proof (intro set_eqI iffI)
        fix y
        assume "y \<in> {tx e' |e' h'. h' \<in> {h} \<union> X \<and> fmlookup (mapTx p) h' = Some e'}"
        then obtain e' h' where y: "y = tx e'" and h': "h' \<in> {h} \<union> X" and l: "fmlookup (mapTx p) h' = Some e'"
          by blast
        show "y \<in> {tx e} \<union> {tx e' |e' h'. h' \<in> X \<and> fmlookup (mapTx ?p1) h' = Some e'}"
        proof (cases "h' = h")
          case True
          with l Some y show ?thesis by simp
        next
          case False
          with h' l have "h' \<in> X" "fmlookup (mapTx ?p1) h' = Some e'"
            by simp_all
          with y show ?thesis by blast
        qed
      next
        fix y
        assume "y \<in> {tx e} \<union> {tx e' |e' h'. h' \<in> X \<and> fmlookup (mapTx ?p1) h' = Some e'}"
        then consider "y = tx e" | e' h' where "y = tx e'" "h' \<in> X" "fmlookup (mapTx ?p1) h' = Some e'"
          by blast
        then show "y \<in> {tx e' |e' h'. h' \<in> {h} \<union> X \<and> fmlookup (mapTx p) h' = Some e'}"
        proof cases
          case 1
          with Some show ?thesis by blast
        next
          case 2
          from 2(3) have "fmlookup (mapTx p) h' = Some e'"
            by (simp split: if_splits)
          with 2(1,2) show ?thesis by blast
        qed
      qed
      then show ?thesis
        unfolding g s X_def by auto
    qed
    ultimately show ?thesis
      by simp
  qed
qed


lemma reachable_resident:
  assumes "A \<subseteq> fmdom' (mapTx p)"
  shows "(spends_output_of p)\<^sup>* `` A \<subseteq> fmdom' (mapTx p)"
proof
  fix x
  assume "x \<in> (spends_output_of p)\<^sup>* `` A"
  then obtain s where sx: "(s, x) \<in> (spends_output_of p)\<^sup>*" and s: "s \<in> A"
    by (rule ImageE)
  from sx show "x \<in> fmdom' (mapTx p)"
  proof (cases rule: rtranclE)
    case base
    with s assms show ?thesis by auto
  next
    case (step y)
    then show ?thesis
      using spends_output_of_resident by blast
  qed
qed

lemma spenders_of_resident: "spenders_of p t \<subseteq> fmdom' (mapTx p)"
  unfolding spenders_of_def by (auto simp: fmlookup_dom'_iff)

lemmas fixture_defs = tx_T1_def tx_T2_def tx_T3_def tx_T4_def tx_B_def entry_of_def admit_def pool_chain_def

lemma no_input_conflict_eval:
  "no_input_conflict p e \<longleftrightarrow> (\<forall>h' e'. fmlookup (mapTx p) h' = Some e' \<longrightarrow> set (prevouts (tx e')) \<inter> set (prevouts (tx e)) = {})"
  by (simp add: no_input_conflict_def fmpred_iff)

lemma pool_chain_inv: "pool_inv pool_chain"
  unfolding pool_chain_def admit_def
  by (intro pool_inv_addUnchecked pool_inv_init)
    (simp_all add: admit_amended_def admit_stated_def admits_own_hash_def no_input_conflict_eval prevouts_def tx_T1_def tx_T2_def tx_T3_def tx_T4_def entry_of_def CTxMemPool_init_def)

lemmas eval_defs = remove_def removeConflicts_def removeForBlock_def fixture_defs pool_orphans_def CTxMemPool_init_def
  addUnchecked_def est_call_def Let_def erase_entry_def erase_inputs_def ClearPrioritisation_def
  PrioritiseTransaction_def

lemma pool_orphans_inv: "pool_inv pool_orphans"
  unfolding pool_orphans_def admit_def
  by (intro pool_inv_addUnchecked pool_inv_init)
    (simp_all add: admit_amended_def admit_stated_def admits_own_hash_def no_input_conflict_eval prevouts_def tx_T1_def tx_T2_def tx_T3_def tx_T4_def entry_of_def CTxMemPool_init_def)

lemma pool_inv_PrioritiseTransaction: "pool_inv (PrioritiseTransaction p h dP nF) = pool_inv p"
  by (rule pool_inv_frame) (simp_all add: PrioritiseTransaction_def Let_def)

lemma diff_determines: "A - X = B \<Longrightarrow> X \<subseteq> A \<Longrightarrow> X = A - B"
  by blast

subsection \<open>The spend index\<close>

text \<open>
  C1 as stated: whenever the caller has established, before each admission, that no input
  of the admitted transaction is declared by an existing pool entry, the size of
  \<open>mapNextTx\<close> is the sum of the input counts of the resident entries. It fails for a
  transaction that names one outpoint in two of its inputs: admitted into the empty pool,
  it has two inputs and \<open>mapNextTx\<close> has one record.
\<close>

theorem spend_index_counterexample:
  "caller_contract admit_stated (CTxMemPool_init (CFeeRate 1000))
     [Admit 1 \<lparr>tx = \<lparr>hash = 1, vin = [CTxIn (COutPoint 9 0), CTxIn (COutPoint 9 0)], vout = [CTxOut 50]\<rparr>,
                nFee = 10, nTxSize = 100, nModSize = 100, nTime = 0, dPriority = 0, nHeight = 7,
                hadNoDependencies = True\<rparr> True]
   \<and> run_ops (CTxMemPool_init (CFeeRate 1000))
     [Admit 1 \<lparr>tx = \<lparr>hash = 1, vin = [CTxIn (COutPoint 9 0), CTxIn (COutPoint 9 0)], vout = [CTxOut 50]\<rparr>,
                nFee = 10, nTxSize = 100, nModSize = 100, nTime = 0, dPriority = 0, nHeight = 7,
                hadNoDependencies = True\<rparr> True] \<noteq> None
   \<and> card (fmdom' (mapNextTx (the (run_ops (CTxMemPool_init (CFeeRate 1000))
     [Admit 1 \<lparr>tx = \<lparr>hash = 1, vin = [CTxIn (COutPoint 9 0), CTxIn (COutPoint 9 0)], vout = [CTxOut 50]\<rparr>,
                nFee = 10, nTxSize = 100, nModSize = 100, nTime = 0, dPriority = 0, nHeight = 7,
                hadNoDependencies = True\<rparr> True])))) = 1
   \<and> input_count (the (run_ops (CTxMemPool_init (CFeeRate 1000))
     [Admit 1 \<lparr>tx = \<lparr>hash = 1, vin = [CTxIn (COutPoint 9 0), CTxIn (COutPoint 9 0)], vout = [CTxOut 50]\<rparr>,
                nFee = 10, nTxSize = 100, nModSize = 100, nTime = 0, dPriority = 0, nHeight = 7,
                hadNoDependencies = True\<rparr> True])) = 2"
  by (simp add: admit_stated_def admits_own_hash_def no_input_conflict_def input_count_def CTxMemPool_init_def)

text \<open>
  C1, amended: for every sequence of \<open>addUnchecked\<close> and \<open>remove\<close> calls on the empty
  pool in which the caller has established, before each admission, that no input of the
  admitted transaction is declared by an existing pool entry and that the inputs of the
  transaction are pairwise distinct outpoints: every call returns, the size of
  \<open>mapNextTx\<close> equals the sum of the input counts of the resident entries, and every key
  of \<open>mapNextTx\<close> maps to the resident transaction that declares that outpoint at exactly
  that input index.
\<close>

theorem spend_index_invariant:
  assumes "caller_contract admit_amended (CTxMemPool_init relayFee) ops"
  shows "\<exists>p'. run_ops (CTxMemPool_init relayFee) ops = Some p'
           \<and> card (fmdom' (mapNextTx p')) = input_count p'
           \<and> (\<forall>out ip. fmlookup (mapNextTx p') out = Some ip \<longrightarrow>
                 (\<exists>e. fmlookup (mapTx p') (ptx ip) = Some e \<and> inpoint_n ip < length (vin (tx e))
                      \<and> prevout (vin (tx e) ! inpoint_n ip) = out))"
proof -
  from run_ops_inv [OF pool_inv_init assms] obtain p' where
    r: "run_ops (CTxMemPool_init relayFee) ops = Some p'" and i: "pool_inv p'"
    by (elim exE conjE)
  from spend_index_card [OF i] pool_invD_owner [OF i] r show ?thesis
    by simp
qed

theorem spend_index_invariant_witness:
  "caller_contract admit_amended (CTxMemPool_init (CFeeRate 1000))
     [Admit 1 (entry_of tx_T1) True, Admit 2 (entry_of tx_T2) True, Remove tx_T1 False, Admit 4 (entry_of tx_T4) True]
   \<and> card (fmdom' (mapNextTx (the (run_ops (CTxMemPool_init (CFeeRate 1000))
     [Admit 1 (entry_of tx_T1) True, Admit 2 (entry_of tx_T2) True, Remove tx_T1 False, Admit 4 (entry_of tx_T4) True])))) = 2
   \<and> input_count (the (run_ops (CTxMemPool_init (CFeeRate 1000))
     [Admit 1 (entry_of tx_T1) True, Admit 2 (entry_of tx_T2) True, Remove tx_T1 False, Admit 4 (entry_of tx_T4) True])) = 2"
proof -
  let ?ops = "[Admit 1 (entry_of tx_T1) True, Admit 2 (entry_of tx_T2) True, Remove tx_T1 False, Admit 4 (entry_of tx_T4) True]"
  have c: "caller_contract admit_amended (CTxMemPool_init (CFeeRate 1000)) ?ops"
    by (simp add: admit_amended_def admit_stated_def admits_own_hash_def no_input_conflict_eval prevouts_def eval_defs)
  have n: "fmdom' (mapNextTx (the (run_ops (CTxMemPool_init (CFeeRate 1000)) ?ops))) = {COutPoint 1 0, COutPoint 101 0}"
    by (auto simp: eval_defs)
  from spend_index_invariant [OF c] obtain p' where
    r: "run_ops (CTxMemPool_init (CFeeRate 1000)) ?ops = Some p'" and k: "card (fmdom' (mapNextTx p')) = input_count p'"
    by (elim exE conjE)
  from r n k have "input_count (the (run_ops (CTxMemPool_init (CFeeRate 1000)) ?ops)) = 2"
    by simp
  with c n show ?thesis
    by simp
qed

subsection \<open>Prioritisation deltas under removal\<close>

text \<open>
  C5: on a well-formed pool, \<open>remove\<close> (recursive or not) and \<open>removeConflicts\<close> return
  and leave \<open>mapDeltas\<close> unchanged, and \<open>removeForBlock\<close> returns and erases the delta
  of exactly the hashes of the transactions of the block.
\<close>

theorem deltas_survive_removal:
  assumes "pool_inv p"
  shows "(\<exists>p' removed'. remove p t removed fRecursive = Some (p', removed') \<and> mapDeltas p' = mapDeltas p)
     \<and> (\<exists>p' removed'. removeConflicts p t removed = Some (p', removed') \<and> mapDeltas p' = mapDeltas p)
     \<and> (\<exists>p' conflicts'. removeForBlock p vtx nBlockHeight conflicts fCurrentEstimate = Some (p', conflicts')
          \<and> (\<forall>k. fmlookup (mapDeltas p') k = (if k \<in> hash ` set vtx then None else fmlookup (mapDeltas p) k)))"
proof (intro conjI)
  from remove_props [OF assms, of t removed fRecursive]
  show "\<exists>p' removed'. remove p t removed fRecursive = Some (p', removed') \<and> mapDeltas p' = mapDeltas p"
    by (elim exE conjE) simp
  from removeConflicts_props [OF assms, of t removed]
  show "\<exists>p' removed'. removeConflicts p t removed = Some (p', removed') \<and> mapDeltas p' = mapDeltas p"
    by (elim exE conjE) simp
  from removeForBlock_loop_props [OF assms, of vtx conflicts] obtain p1 conflicts1 where
    r: "removeForBlock_loop p vtx conflicts = Some (p1, conflicts1)"
    and d: "\<forall>k. fmlookup (mapDeltas p1) k = (if k \<in> hash ` set vtx then None else fmlookup (mapDeltas p) k)"
    by (elim exE conjE)
  then show "\<exists>p' conflicts'. removeForBlock p vtx nBlockHeight conflicts fCurrentEstimate = Some (p', conflicts')
          \<and> (\<forall>k. fmlookup (mapDeltas p') k = (if k \<in> hash ` set vtx then None else fmlookup (mapDeltas p) k))"
    by (simp add: removeForBlock_def est_call_def)
qed

theorem deltas_survive_removal_witness:
  "pool_inv (PrioritiseTransaction pool_chain 1 3 100)
   \<and> fmlookup (mapDeltas (PrioritiseTransaction pool_chain 1 3 100)) 1 = Some (3, 100)
   \<and> fmlookup (mapDeltas (fst (the (remove (PrioritiseTransaction pool_chain 1 3 100) tx_T1 [] True)))) 1 = Some (3, 100)
   \<and> fmlookup (mapDeltas (fst (the (removeConflicts (PrioritiseTransaction pool_chain 1 3 100) tx_B [])))) 1 = Some (3, 100)
   \<and> fmlookup (mapDeltas (fst (the (removeForBlock (PrioritiseTransaction pool_chain 1 3 100) [tx_T1] 101 [] True)))) 1 = None
   \<and> fmlookup (mapDeltas (fst (the (removeForBlock (PrioritiseTransaction pool_chain 1 3 100) [tx_B] 101 [] True)))) 1 = Some (3, 100)"
proof -
  let ?p = "PrioritiseTransaction pool_chain 1 3 100"
  have i: "pool_inv ?p"
    by (simp add: pool_inv_PrioritiseTransaction pool_chain_inv)
  have m: "fmlookup (mapDeltas ?p) 1 = Some (3, 100)"
    by (simp add: eval_defs)
  from deltas_survive_removal [OF i, of tx_T1 "[]" True "[tx_T1]" 101 "[]" True] obtain p1 r1 p3 c3 where
    a1: "remove ?p tx_T1 [] True = Some (p1, r1)" and b1: "mapDeltas p1 = mapDeltas ?p"
    and a3: "removeForBlock ?p [tx_T1] 101 [] True = Some (p3, c3)"
    and b3: "\<forall>k. fmlookup (mapDeltas p3) k = (if k \<in> hash ` set [tx_T1] then None else fmlookup (mapDeltas ?p) k)"
    by (elim exE conjE)
  from deltas_survive_removal [OF i, of tx_B "[]" True "[tx_B]" 101 "[]" True] obtain p2 r2 p4 c4 where
    a2: "removeConflicts ?p tx_B [] = Some (p2, r2)" and b2: "mapDeltas p2 = mapDeltas ?p"
    and a4: "removeForBlock ?p [tx_B] 101 [] True = Some (p4, c4)"
    and b4: "\<forall>k. fmlookup (mapDeltas p4) k = (if k \<in> hash ` set [tx_B] then None else fmlookup (mapDeltas ?p) k)"
    by (elim exE conjE)
  from a1 b1 m have 1: "fmlookup (mapDeltas (fst (the (remove ?p tx_T1 [] True)))) 1 = Some (3, 100)"
    by simp
  from a2 b2 m have 2: "fmlookup (mapDeltas (fst (the (removeConflicts ?p tx_B [])))) 1 = Some (3, 100)"
    by simp
  from b3 have "fmlookup (mapDeltas p3) 1 = None"
    by (simp add: tx_T1_def)
  with a3 have 3: "fmlookup (mapDeltas (fst (the (removeForBlock ?p [tx_T1] 101 [] True)))) 1 = None"
    by simp
  from b4 m have "fmlookup (mapDeltas p4) 1 = Some (3, 100)"
    by (simp add: tx_B_def)
  with a4 have 4: "fmlookup (mapDeltas (fst (the (removeForBlock ?p [tx_B] 101 [] True)))) 1 = Some (3, 100)"
    by simp
  from i m 1 2 3 4 show ?thesis
    by - (intro conjI; assumption)
qed

subsection \<open>Removal for a connected block\<close>

text \<open>
  C2: on a well-formed pool, \<open>removeForBlock\<close> returns; afterwards no transaction of
  \<open>vtx\<close> is resident, no resident transaction has an input that spends an outpoint spent
  by an input of a transaction of \<open>vtx\<close>, and the estimator has been told of removals and
  then, last, of the block: its height and the entries that the transactions of \<open>vtx\<close>
  had in the pool before the removal, in the order of \<open>vtx\<close>.
\<close>

theorem removeForBlock_clears:
  assumes "pool_inv p"
  shows "\<exists>p' conflicts'. removeForBlock p vtx nBlockHeight conflicts fCurrentEstimate = Some (p', conflicts')
     \<and> (\<forall>t \<in> set vtx. fmlookup (mapTx p') (hash t) = None)
     \<and> (\<forall>h e. fmlookup (mapTx p') h = Some e \<longrightarrow>
            (\<forall>t \<in> set vtx. set (prevouts (tx e)) \<inter> set (prevouts t) = {}))
     \<and> (\<exists>hs. calls (minerPolicyEstimator p') =
            calls (minerPolicyEstimator p) @ map RemoveTx hs
            @ [ProcessBlock nBlockHeight
                 (map (\<lambda>t. the (fmlookup (mapTx p) (hash t)))
                    (filter (\<lambda>t. fmlookup (mapTx p) (hash t) \<noteq> None) vtx))
                 fCurrentEstimate])
     \<and> pool_inv p'"
proof -
  from removeForBlock_loop_props [OF assms, of vtx conflicts] obtain p1 conflicts1 where
    r: "removeForBlock_loop p vtx conflicts = Some (p1, conflicts1)" and i: "pool_inv p1" and s: "shrinks p p1"
    and g: "\<forall>t \<in> set vtx. fmlookup (mapTx p1) (hash t) = None
              \<and> (\<forall>x \<in> set (vin t). fmlookup (mapNextTx p1) (prevout x) = None)"
    by (elim exE conjE)
  let ?c = "ProcessBlock nBlockHeight (collect_entries p vtx) fCurrentEstimate"
  let ?p' = "est_call ?c p1"
  have maps: "mapTx ?p' = mapTx p1" "mapNextTx ?p' = mapNextTx p1"
    by (simp_all add: est_call_def)
  have res: "removeForBlock p vtx nBlockHeight conflicts fCurrentEstimate = Some (?p', conflicts1)"
    by (simp add: removeForBlock_def r)
  have gone: "\<forall>t \<in> set vtx. fmlookup (mapTx ?p') (hash t) = None"
    using g by (simp add: maps)
  have noconf: "set (prevouts (tx e)) \<inter> set (prevouts t) = {}"
    if e: "fmlookup (mapTx ?p') h = Some e" and t: "t \<in> set vtx" for h e t
  proof (rule ccontr)
    assume "set (prevouts (tx e)) \<inter> set (prevouts t) \<noteq> {}"
    then obtain out where o1: "out \<in> set (prevouts (tx e))" and o2: "out \<in> set (prevouts t)"
      by blast
    from o1 obtain k where k: "k < length (vin (tx e))" and ok: "out = prevout (vin (tx e) ! k)"
      by (auto simp: prevouts_def in_set_conv_nth)
    from e have e1: "fmlookup (mapTx p1) h = Some e"
      by (simp add: maps)
    from pool_invD_indexed [OF i e1 k] ok have "fmlookup (mapNextTx p1) out = Some (CInPoint h k)"
      by simp
    moreover from o2 g t have "fmlookup (mapNextTx p1) out = None"
      by (auto simp: prevouts_def)
    ultimately show False
      by simp
  qed
  from s obtain hs where "calls (minerPolicyEstimator p1) = calls (minerPolicyEstimator p) @ map RemoveTx hs"
    unfolding shrinks_def by (elim exE conjE)
  then have "calls (minerPolicyEstimator ?p') =
            calls (minerPolicyEstimator p) @ map RemoveTx hs
            @ [ProcessBlock nBlockHeight
                 (map (\<lambda>t. the (fmlookup (mapTx p) (hash t)))
                    (filter (\<lambda>t. fmlookup (mapTx p) (hash t) \<noteq> None) vtx))
                 fCurrentEstimate]"
    by (simp add: est_call_def collect_entries_eq)
  then have est: "\<exists>hs. calls (minerPolicyEstimator ?p') =
            calls (minerPolicyEstimator p) @ map RemoveTx hs
            @ [ProcessBlock nBlockHeight
                 (map (\<lambda>t. the (fmlookup (mapTx p) (hash t)))
                    (filter (\<lambda>t. fmlookup (mapTx p) (hash t) \<noteq> None) vtx))
                 fCurrentEstimate]"
    by (rule exI)
  have inv: "pool_inv ?p'"
    using i pool_inv_frame [OF maps] by simp
  show ?thesis
    using res gone noconf est inv by (intro exI [of _ ?p'] exI [of _ conflicts1] conjI) auto
qed

theorem removeForBlock_clears_witness:
  "pool_inv pool_chain
   \<and> removeForBlock pool_chain [tx_B, tx_T1] 101 [] True \<noteq> None
   \<and> fmdom' (mapTx (fst (the (removeForBlock pool_chain [tx_B, tx_T1] 101 [] True)))) = {2, 3}
   \<and> snd (the (removeForBlock pool_chain [tx_B, tx_T1] 101 [] True)) = [tx_T4]
   \<and> calls (minerPolicyEstimator (fst (the (removeForBlock pool_chain [tx_B, tx_T1] 101 [] True))))
        = calls (minerPolicyEstimator pool_chain) @ [RemoveTx 4, RemoveTx 1, ProcessBlock 101 [entry_of tx_T1] True]
   \<and> fmlookup (mapTx (fst (the (removeForBlock pool_chain [tx_B, tx_T1] 101 [] True)))) (hash tx_T1) = None
   \<and> fmlookup (mapTx (fst (the (removeForBlock pool_chain [tx_B, tx_T1] 101 [] True)))) (hash tx_B) = None"
proof -
  have e1: "fmdom' (mapTx (fst (the (removeForBlock pool_chain [tx_B, tx_T1] 101 [] True)))) = {2, 3}"
    and e2: "snd (the (removeForBlock pool_chain [tx_B, tx_T1] 101 [] True)) = [tx_T4]"
    and e3: "calls (minerPolicyEstimator (fst (the (removeForBlock pool_chain [tx_B, tx_T1] 101 [] True))))
        = calls (minerPolicyEstimator pool_chain) @ [RemoveTx 4, RemoveTx 1, ProcessBlock 101 [entry_of tx_T1] True]"
    by (auto simp: eval_defs)
  from removeForBlock_clears [OF pool_chain_inv, of "[tx_B, tx_T1]" 101 "[]" True] obtain p' conflicts' where
    r: "removeForBlock pool_chain [tx_B, tx_T1] 101 [] True = Some (p', conflicts')"
    and g: "\<forall>t \<in> set [tx_B, tx_T1]. fmlookup (mapTx p') (hash t) = None"
    by (elim exE conjE)
  from r g have "fmlookup (mapTx (fst (the (removeForBlock pool_chain [tx_B, tx_T1] 101 [] True)))) (hash tx_T1) = None"
    and "fmlookup (mapTx (fst (the (removeForBlock pool_chain [tx_B, tx_T1] 101 [] True)))) (hash tx_B) = None"
    by simp_all
  with pool_chain_inv r e1 e2 e3 show ?thesis
    by simp
qed

subsection \<open>Recursive removal\<close>

text \<open>
  C3: on a well-formed pool, \<open>remove(tx, recursive = true)\<close> returns and removes exactly
  \<open>removal_set\<close>: \<open>tx\<close> if it is resident, and the resident transactions that spend an
  output of \<open>tx\<close> directly or through a chain of resident transactions; when \<open>tx\<close> is absent
  the transactions that spend its outputs, and theirs, are removed all the same. The
  entries left are unchanged, and the transactions removed are appended to \<open>removed\<close>.
\<close>

theorem remove_recursive_exact:
  assumes "pool_inv p"
  shows "\<exists>p' removed'. remove p t removed True = Some (p', removed')
     \<and> fmdom' (mapTx p') = fmdom' (mapTx p) - removal_set p t
     \<and> (\<forall>h e. fmlookup (mapTx p') h = Some e \<longrightarrow> fmlookup (mapTx p) h = Some e)
     \<and> set removed' = set removed \<union> {tx e |e h. h \<in> removal_set p t \<and> fmlookup (mapTx p) h = Some e}
     \<and> removal_set p t \<subseteq> fmdom' (mapTx p)
     \<and> pool_inv p'"
proof -
  let ?R = "spends_output_of p"
  from remove_props [OF assms, of t removed True] obtain p' removed' where
    r: "remove p t removed True = Some (p', removed')" and i: "pool_inv p'" and s: "shrinks p p'"
    by (elim exE conjE)
  have sub: "\<forall>h e. fmlookup (mapTx p') h = Some e \<longrightarrow> fmlookup (mapTx p) h = Some e"
    using shrinks_mapTx_Some [OF s] by blast
  show ?thesis
  proof (cases "fmlookup (mapTx p) (hash t)")
    case (Some e0)
    then have res: "hash t \<in> fmdom' (mapTx p)"
      by (rule fmdom'I)
    then have rs: "removal_set p t = ?R\<^sup>* `` {hash t}"
      by (simp add: removal_set_def)
    from Some r have l: "remove_loop True p [hash t] removed = Some (p', removed')"
      by (simp add: remove_def)
    from remove_loop_exact [OF TrueI assms, of "[hash t]" removed] l
    have "fmdom' (mapTx p') = fmdom' (mapTx p) - ?R\<^sup>* `` {hash t}"
      and "set removed' = set removed \<union> {tx e |e h. h \<in> ?R\<^sup>* `` {hash t} \<and> fmlookup (mapTx p) h = Some e}"
      by simp_all
    moreover from res have "removal_set p t \<subseteq> fmdom' (mapTx p)"
      unfolding rs by (intro reachable_resident) simp
    ultimately show ?thesis
      using r i sub unfolding rs by simp
  next
    case None
    then have nres: "hash t \<notin> fmdom' (mapTx p)"
      by (rule fmdom'_notI)
    then have rs: "removal_set p t = ?R\<^sup>* `` spenders_of p t"
      by (simp add: removal_set_def)
    from push_spenders_Some [OF assms, of "hash t" "[0..<length (vout t)]" "[hash t]"]
    obtain cs where cs: "push_spenders p (hash t) [0..<length (vout t)] [hash t] = Some ([hash t] @ cs)"
      and scs: "set cs = {b. \<exists>i \<in> set [0..<length (vout t)]. \<exists>ip.
                         fmlookup (mapNextTx p) (COutPoint (hash t) i) = Some ip \<and> ptx ip = b}"
      by (elim exE conjE)
    from scs have scs': "set cs = spenders_of p t"
      by (simp only: pushed_absent [OF assms])
    from None r cs have l: "remove_loop True p (hash t # cs) removed = Some (p', removed')"
      by (simp add: remove_def)
    have g: "?R\<^sup>* `` set (hash t # cs) = {hash t} \<union> removal_set p t"
      using rtrancl_absent_node [OF None, of "set cs"] by (simp add: rs scs')
    from remove_loop_exact [OF TrueI assms, of "hash t # cs" removed] l
    have d: "fmdom' (mapTx p') = fmdom' (mapTx p) - ({hash t} \<union> removal_set p t)"
      and m: "set removed' = set removed \<union> {tx e |e h. h \<in> {hash t} \<union> removal_set p t \<and> fmlookup (mapTx p) h = Some e}"
      unfolding g by simp_all
    from d nres have "fmdom' (mapTx p') = fmdom' (mapTx p) - removal_set p t"
      by auto
    moreover from None have "{tx e |e h. h \<in> {hash t} \<union> removal_set p t \<and> fmlookup (mapTx p) h = Some e}
          = {tx e |e h. h \<in> removal_set p t \<and> fmlookup (mapTx p) h = Some e}"
      by auto
    with m have "set removed' = set removed \<union> {tx e |e h. h \<in> removal_set p t \<and> fmlookup (mapTx p) h = Some e}"
      by simp
    moreover have "removal_set p t \<subseteq> fmdom' (mapTx p)"
      unfolding rs by (rule reachable_resident [OF spenders_of_resident])
    ultimately show ?thesis
      using r i sub by simp
  qed
qed

theorem remove_recursive_exact_witness:
  "pool_inv pool_chain
   \<and> remove pool_chain tx_T1 [] True \<noteq> None
   \<and> snd (the (remove pool_chain tx_T1 [] True)) = [tx_T1, tx_T2, tx_T3]
   \<and> fmdom' (mapTx (fst (the (remove pool_chain tx_T1 [] True)))) = {4}
   \<and> removal_set pool_chain tx_T1 = {1, 2, 3}
   \<and> pool_inv pool_orphans
   \<and> remove pool_orphans tx_T1 [] True \<noteq> None
   \<and> snd (the (remove pool_orphans tx_T1 [] True)) = [tx_T2, tx_T3]
   \<and> fmdom' (mapTx (fst (the (remove pool_orphans tx_T1 [] True)))) = {4}
   \<and> removal_set pool_orphans tx_T1 = {2, 3}"
proof -
  have e1: "snd (the (remove pool_chain tx_T1 [] True)) = [tx_T1, tx_T2, tx_T3]"
    and e2: "fmdom' (mapTx (fst (the (remove pool_chain tx_T1 [] True)))) = {4}"
    and e3: "fmdom' (mapTx pool_chain) = {1, 2, 3, 4}"
    by (auto simp: eval_defs)
  have o1: "snd (the (remove pool_orphans tx_T1 [] True)) = [tx_T2, tx_T3]"
    and o2: "fmdom' (mapTx (fst (the (remove pool_orphans tx_T1 [] True)))) = {4}"
    and o3: "fmdom' (mapTx pool_orphans) = {2, 3, 4}"
    by (auto simp: eval_defs)
  from remove_recursive_exact [OF pool_chain_inv, of tx_T1 "[]"] obtain p' removed' where
    r: "remove pool_chain tx_T1 [] True = Some (p', removed')"
    and d: "fmdom' (mapTx p') = fmdom' (mapTx pool_chain) - removal_set pool_chain tx_T1"
    and s: "removal_set pool_chain tx_T1 \<subseteq> fmdom' (mapTx pool_chain)"
    by (elim exE conjE)
  from r e2 have "fmdom' (mapTx p') = {4}"
    by simp
  with d have "fmdom' (mapTx pool_chain) - removal_set pool_chain tx_T1 = {4}"
    by simp
  from diff_determines [OF this s] have "removal_set pool_chain tx_T1 = fmdom' (mapTx pool_chain) - {4}" .
  also have "\<dots> = {1, 2, 3}"
    unfolding e3 by auto
  finally have c: "removal_set pool_chain tx_T1 = {1, 2, 3}" .
  from remove_recursive_exact [OF pool_orphans_inv, of tx_T1 "[]"] obtain q' removed'' where
    r': "remove pool_orphans tx_T1 [] True = Some (q', removed'')"
    and d': "fmdom' (mapTx q') = fmdom' (mapTx pool_orphans) - removal_set pool_orphans tx_T1"
    and s': "removal_set pool_orphans tx_T1 \<subseteq> fmdom' (mapTx pool_orphans)"
    by (elim exE conjE)
  from r' o2 have "fmdom' (mapTx q') = {4}"
    by simp
  with d' have "fmdom' (mapTx pool_orphans) - removal_set pool_orphans tx_T1 = {4}"
    by simp
  from diff_determines [OF this s'] have "removal_set pool_orphans tx_T1 = fmdom' (mapTx pool_orphans) - {4}" .
  also have "\<dots> = {2, 3}"
    unfolding o3 by auto
  finally have c': "removal_set pool_orphans tx_T1 = {2, 3}" .
  from r have n: "remove pool_chain tx_T1 [] True \<noteq> None"
    by simp
  from r' have n': "remove pool_orphans tx_T1 [] True \<noteq> None"
    by simp
  from pool_chain_inv n e1 e2 c pool_orphans_inv n' o1 o2 c' show ?thesis
    by - (intro conjI; assumption)
qed

end
